theory Spec2Isabelle
  imports Main
begin

section \<open>Strings as Python sees them\<close>

text \<open>
  Python strings are modelled as \<^typ>\<open>string\<close>; a character is read as an ASCII code
  point. Case folding (\<open>str.lower\<close>, \<open>re.IGNORECASE\<close>) is the ASCII one, whitespace
  (\<open>str.strip\<close>, \<open>\s\<close>) is the ASCII part of Python's Unicode whitespace
  (TAB, LF, VT, FF, CR, FS, GS, RS, US, SPACE), and \<open>\d\<close> is \<open>0-9\<close>.
\<close>

definition isspace :: "char \<Rightarrow> bool" where
  "isspace c = (c \<in> set [CHR 0x09, CHR 0x0A, CHR 0x0B, CHR 0x0C, CHR 0x0D,
                          CHR 0x1C, CHR 0x1D, CHR 0x1E, CHR 0x1F, CHR '' ''])"

definition isdigit :: "char \<Rightarrow> bool" where
  "isdigit c = (c \<in> set ''0123456789'')"

definition lower_char :: "char \<Rightarrow> char" where
  "lower_char c =
     (case map_of (zip ''ABCDEFGHIJKLMNOPQRSTUVWXYZ'' ''abcdefghijklmnopqrstuvwxyz'') c of
        Some d \<Rightarrow> d
      | None \<Rightarrow> c)"

definition py_lower :: "string \<Rightarrow> string" where
  "py_lower s = map lower_char s"

definition py_strip :: "string \<Rightarrow> string" where
  "py_strip s = rev (dropWhile isspace (rev (dropWhile isspace s)))"

definition py_replace_char :: "char \<Rightarrow> char \<Rightarrow> string \<Rightarrow> string" where
  "py_replace_char a b s = map (\<lambda>c. if c = a then b else c) s"

text \<open>\<open>name.split(':', 1)[1]\<close>: everything after the first colon.\<close>

definition after_first_colon :: "string \<Rightarrow> string" where
  "after_first_colon s = tl (dropWhile (\<lambda>c. c \<noteq> CHR '':'') s)"

section \<open>\<open>replace_templates.py\<close>: the name normalizer\<close>

text \<open>
  \<^verbatim>\<open>
  def normalize_template_name(name):
      if ':' in name:
          name = name.split(':', 1)[1]
      return name.strip().lower().replace('_', ' ')
  \<close>
\<close>

definition strip_namespace :: "string \<Rightarrow> string" where
  "strip_namespace name = (if CHR '':'' \<in> set name then after_first_colon name else name)"

definition normalize_template_name :: "string \<Rightarrow> string" where
  "normalize_template_name name =
     py_replace_char (CHR ''_'') (CHR '' '') (py_lower (py_strip (strip_namespace name)))"

section \<open>The fragment of Python's \<open>re\<close> that the program uses\<close>

text \<open>
  Every pattern of the program is a sequence of single-character items: a literal
  (what \<open>re.escape\<close> produces), a class (\<open>\s\<close>, \<open>\d\<close>, \<open>[^\}]\<close>, \<open>[\|\}]\<close>), a greedy
  repetition of a class (\<open>*\<close>, \<open>+\<close>), a capturing \<open>(\d+)\<close>, and one optional group
  \<open>(...)?\<close>. The matcher below is the backtracking one of \<open>re\<close>: a greedy repetition
  takes as many characters as it can and gives them back one at a time while the rest of
  the pattern fails; an optional group is tried before it is skipped.
\<close>

datatype cls = Only char | Except char | AnyOf "char list" | Space | Digit

text \<open>The flag is \<open>re.IGNORECASE\<close>.\<close>

fun in_cls :: "bool \<Rightarrow> cls \<Rightarrow> char \<Rightarrow> bool" where
  "in_cls ic (Only a) c = (if ic then lower_char c = lower_char a else c = a)"
| "in_cls ic (Except a) c = (if ic then lower_char c \<noteq> lower_char a else c \<noteq> a)"
| "in_cls ic (AnyOf as) c = (if ic then lower_char c \<in> set (map lower_char as) else c \<in> set as)"
| "in_cls ic Space c = isspace c"
| "in_cls ic Digit c = isdigit c"

datatype item = One cls | Many cls | Many1 cls | Group1 cls | Opt "item list"

text \<open>
  \<open>greedy p k s\<close>: consume the longest run of \<open>p\<close>-characters for which the continuation
  \<open>k\<close> succeeds on what is left; the result is the run and the continuation's result.
\<close>

fun greedy :: "(char \<Rightarrow> bool) \<Rightarrow> (string \<Rightarrow> 'a option) \<Rightarrow> string \<Rightarrow> (string \<times> 'a) option" where
  "greedy p k [] = map_option (Pair []) (k [])"
| "greedy p k (x # xs) =
     (if p x then
        (case greedy p k xs of
           Some (w, r) \<Rightarrow> Some (x # w, r)
         | None \<Rightarrow> map_option (Pair []) (k (x # xs)))
      else map_option (Pair []) (k (x # xs)))"

text \<open>
  \<open>mt ic items s\<close> matches the pattern at the start of \<open>s\<close>; the result is the text of
  the \<open>(\d+)\<close> groups in order, and the rest of \<open>s\<close> after the match.
\<close>

function mt :: "bool \<Rightarrow> item list \<Rightarrow> string \<Rightarrow> (string list \<times> string) option" where
  "mt ic [] s = Some ([], s)"
| "mt ic (One c # is) s =
     (case s of
        [] \<Rightarrow> None
      | x # xs \<Rightarrow> if in_cls ic c x then mt ic is xs else None)"
| "mt ic (Many c # is) s = map_option snd (greedy (in_cls ic c) (mt ic is) s)"
| "mt ic (Many1 c # is) s =
     (case s of
        [] \<Rightarrow> None
      | x # xs \<Rightarrow>
          if in_cls ic c x then map_option snd (greedy (in_cls ic c) (mt ic is) xs)
          else None)"
| "mt ic (Group1 c # is) s =
     (case s of
        [] \<Rightarrow> None
      | x # xs \<Rightarrow>
          if in_cls ic c x then
            (case greedy (in_cls ic c) (mt ic is) xs of
               Some (w, (gs, r)) \<Rightarrow> Some ((x # w) # gs, r)
             | None \<Rightarrow> None)
          else None)"
| "mt ic (Opt g # is) s =
     (case mt ic (g @ is) s of
        Some r \<Rightarrow> Some r
      | None \<Rightarrow> mt ic is s)"
  by pat_completeness auto
termination
  by (relation "measure (\<lambda>(ic, is, s). size_list size is)") (auto simp: size_list_append)

text \<open>A match object: \<open>start()\<close>, \<open>end()\<close>, \<open>group(0)\<close> and the captured groups.\<close>

record rmatch =
  m_start :: nat
  m_end :: nat
  m_text :: string
  m_groups :: "string list"

text \<open>
  \<open>re.finditer\<close>: the non-overlapping matches, left to right; \<open>pos\<close> is the offset of \<open>s\<close>
  in the whole text. The branch for an empty match (record it, move on by one character)
  is never taken by a pattern of this program: each of them starts with two literals.
\<close>

function finditer_from :: "bool \<Rightarrow> item list \<Rightarrow> nat \<Rightarrow> string \<Rightarrow> rmatch list" where
  "finditer_from ic p pos [] =
     (case mt ic p [] of
        None \<Rightarrow> []
      | Some (gs, rest) \<Rightarrow> [\<lparr>m_start = pos, m_end = pos, m_text = [], m_groups = gs\<rparr>])"
| "finditer_from ic p pos (x # xs) =
     (case mt ic p (x # xs) of
        None \<Rightarrow> finditer_from ic p (Suc pos) xs
      | Some (gs, rest) \<Rightarrow>
          if length rest < length (x # xs) then
            \<lparr>m_start = pos, m_end = pos + (length (x # xs) - length rest),
             m_text = take (length (x # xs) - length rest) (x # xs), m_groups = gs\<rparr>
            # finditer_from ic p (pos + (length (x # xs) - length rest)) rest
          else
            \<lparr>m_start = pos, m_end = pos, m_text = [], m_groups = gs\<rparr>
            # finditer_from ic p (Suc pos) xs)"
  by pat_completeness auto
termination
  by (relation "measure (\<lambda>(ic, p, pos, s). length s)") auto

definition finditer :: "bool \<Rightarrow> item list \<Rightarrow> string \<Rightarrow> rmatch list" where
  "finditer ic p text = finditer_from ic p 0 text"

text \<open>\<open>re.search\<close>: the leftmost match.\<close>

fun search_from :: "bool \<Rightarrow> item list \<Rightarrow> nat \<Rightarrow> string \<Rightarrow> rmatch option" where
  "search_from ic p pos [] =
     (case mt ic p [] of
        None \<Rightarrow> None
      | Some (gs, rest) \<Rightarrow> Some \<lparr>m_start = pos, m_end = pos, m_text = [], m_groups = gs\<rparr>)"
| "search_from ic p pos (x # xs) =
     (case mt ic p (x # xs) of
        None \<Rightarrow> search_from ic p (Suc pos) xs
      | Some (gs, rest) \<Rightarrow>
          Some \<lparr>m_start = pos, m_end = pos + (length (x # xs) - length rest),
                m_text = take (length (x # xs) - length rest) (x # xs), m_groups = gs\<rparr>)"

definition search :: "bool \<Rightarrow> item list \<Rightarrow> string \<Rightarrow> rmatch option" where
  "search ic p text = search_from ic p 0 text"

text \<open>\<open>re.sub(pattern, repl, s)\<close> for a replacement without group references.\<close>

function re_sub :: "bool \<Rightarrow> item list \<Rightarrow> string \<Rightarrow> string \<Rightarrow> string" where
  "re_sub ic p repl [] = (case mt ic p [] of None \<Rightarrow> [] | Some r \<Rightarrow> repl)"
| "re_sub ic p repl (x # xs) =
     (case mt ic p (x # xs) of
        None \<Rightarrow> x # re_sub ic p repl xs
      | Some (gs, rest) \<Rightarrow>
          if length rest < length (x # xs) then repl @ re_sub ic p repl rest
          else repl @ x # re_sub ic p repl xs)"
  by pat_completeness auto
termination
  by (relation "measure (\<lambda>(ic, p, repl, s). length s)") auto

text \<open>\<open>re.escape(s)\<close>: a pattern that matches \<open>s\<close> literally.\<close>

definition lits :: "string \<Rightarrow> item list" where
  "lits s = map (\<lambda>c. One (Only c)) s"

section \<open>Numbers and substrings\<close>

text \<open>\<open>int(s)\<close> for a string of ASCII digits, as \<open>(\d+)\<close> captures it.\<close>

definition digit_val :: "char \<Rightarrow> int" where
  "digit_val c = (case map_of (zip ''0123456789'' [0, 1, 2, 3, 4, 5, 6, 7, 8, 9]) c of
                    Some d \<Rightarrow> d
                  | None \<Rightarrow> 0)"

definition int_of_digits :: "string \<Rightarrow> int" where
  "int_of_digits s = foldl (\<lambda>a c. 10 * a + digit_val c) 0 s"

text \<open>\<open>str(n)\<close> for an integer.\<close>

function str_nat :: "nat \<Rightarrow> string" where
  "str_nat n = (if n < 10 then [''0123456789'' ! n] else str_nat (n div 10) @ [''0123456789'' ! (n mod 10)])"
  by pat_completeness auto
termination
  by (relation "measure id") auto

declare str_nat.simps [simp del]

definition str_int :: "int \<Rightarrow> string" where
  "str_int i = (if i < 0 then CHR ''-'' # str_nat (nat (- i)) else str_nat (nat i))"

text \<open>\<open>s.startswith(p)\<close> and \<open>p in s\<close>.\<close>

fun starts_with :: "string \<Rightarrow> string \<Rightarrow> bool" where
  "starts_with [] s = True"
| "starts_with (a # p) [] = False"
| "starts_with (a # p) (x # xs) = (a = x \<and> starts_with p xs)"

fun contains :: "string \<Rightarrow> string \<Rightarrow> bool" where
  "contains p [] = (p = [])"
| "contains p (x # xs) = (starts_with p (x # xs) \<or> contains p xs)"

text \<open>
  \<open>s.replace(old, new)\<close>: the non-overlapping occurrences of \<open>old\<close>, left to right.
  For an empty \<open>old\<close> Python inserts \<open>new\<close> before every character and at the end.
\<close>

function py_replace :: "string \<Rightarrow> string \<Rightarrow> string \<Rightarrow> string" where
  "py_replace old new [] = (if old = [] then new else [])"
| "py_replace old new (x # xs) =
     (if old = [] then new @ x # py_replace old new xs
      else if starts_with old (x # xs) then new @ py_replace old new (drop (length old) (x # xs))
      else x # py_replace old new xs)"
  by pat_completeness auto
termination
  by (relation "measure (\<lambda>(old, new, s). length s)") auto

text \<open>
  Python slices \<open>text[:i]\<close> and \<open>text[i:]\<close> for an integer \<open>i\<close>: a negative index counts
  from the end, and an index out of range is clamped.
\<close>

definition slice_to :: "string \<Rightarrow> int \<Rightarrow> string" where
  "slice_to text i = (if i < 0 then take (nat (int (length text) + i)) text else take (nat i) text)"

definition slice_from :: "string \<Rightarrow> int \<Rightarrow> string" where
  "slice_from text i = (if i < 0 then drop (nat (int (length text) + i)) text else drop (nat i) text)"

section \<open>\<open>config.py\<close>\<close>

definition SOURCE_TEMPLATES :: "string list" where
  "SOURCE_TEMPLATES = [''CatDiffuse'', ''Cat diffuse'', ''Category diffuse'', ''Catdiffuse'']"

definition TARGET_TEMPLATE :: string where
  "TARGET_TEMPLATE = ''Diffusion by condition''"

definition DEFAULT_LIMIT :: int where
  "DEFAULT_LIMIT = 200"

section \<open>\<open>replace_templates.py\<close>: the rewrite engine\<close>

text \<open>
  The pattern of the source scan,
  \<^verbatim>\<open>r'\{\{\s*' + re.escape(source) + r'\s*(\|[^\}]*)?\}\}'\<close>.
\<close>

definition source_pattern :: "string \<Rightarrow> item list" where
  "source_pattern source =
     [One (Only (CHR ''{'')), One (Only (CHR ''{'')), Many Space] @ lits source @
     [Many Space, Opt [One (Only (CHR ''|'')), Many (Except (CHR ''}''))],
      One (Only (CHR ''}'')), One (Only (CHR ''}''))]"

text \<open>
  \<^verbatim>\<open>r'\{\{\s*' + re.escape(target) + r'\s*[\|\}]'\<close>
\<close>

definition target_pattern :: "string \<Rightarrow> item list" where
  "target_pattern target =
     [One (Only (CHR ''{'')), One (Only (CHR ''{'')), Many Space] @ lits target @
     [Many Space, One (AnyOf [CHR ''|'', CHR ''}''])]"

text \<open>
  \<^verbatim>\<open>r'\{\{\s*' + re.escape(template_name) + r'\s*\|\s*(\d+)\s*\}\}'\<close>
\<close>

definition limit_pattern_positional :: "string \<Rightarrow> item list" where
  "limit_pattern_positional template_name =
     [One (Only (CHR ''{'')), One (Only (CHR ''{'')), Many Space] @ lits template_name @
     [Many Space, One (Only (CHR ''|'')), Many Space, Group1 Digit, Many Space,
      One (Only (CHR ''}'')), One (Only (CHR ''}''))]"

text \<open>
  \<^verbatim>\<open>r'\{\{\s*' + re.escape(template_name) + r'\s*\|\s*limit\s*=\s*(\d+)'\<close>
\<close>

definition limit_pattern_named :: "string \<Rightarrow> item list" where
  "limit_pattern_named template_name =
     [One (Only (CHR ''{'')), One (Only (CHR ''{'')), Many Space] @ lits template_name @
     [Many Space, One (Only (CHR ''|'')), Many Space] @ lits ''limit'' @
     [Many Space, One (Only (CHR ''='')), Many Space, Group1 Digit]"

text \<open>
  \<^verbatim>\<open>
  def extract_limit_from_template(text, template_name):
      pattern = r'\{\{\s*' + re.escape(template_name) + r'\s*\|\s*(\d+)\s*\}\}'
      match = re.search(pattern, text, re.IGNORECASE)
      if match:
          return int(match.group(1))
      pattern = r'\{\{\s*' + re.escape(template_name) + r'\s*\|\s*limit\s*=\s*(\d+)'
      match = re.search(pattern, text, re.IGNORECASE)
      if match:
          return int(match.group(1))
      return None
  \<close>
  \<open>group(1)\<close> is the first captured group; both patterns have exactly one.
\<close>

definition group1 :: "rmatch \<Rightarrow> string" where
  "group1 m = (case m_groups m of [] \<Rightarrow> [] | g # gs \<Rightarrow> g)"

definition extract_limit_from_template :: "string \<Rightarrow> string \<Rightarrow> int option" where
  "extract_limit_from_template text template_name =
     (case search True (limit_pattern_positional template_name) text of
        Some m \<Rightarrow> Some (int_of_digits (group1 m))
      | None \<Rightarrow>
          (case search True (limit_pattern_named template_name) text of
             Some m \<Rightarrow> Some (int_of_digits (group1 m))
           | None \<Rightarrow> None))"

text \<open>
  \<^verbatim>\<open>
  def has_target_template(text, target):
      pattern = r'\{\{\s*' + re.escape(target) + r'\s*[\|\}]'
      return bool(re.search(pattern, text, re.IGNORECASE))
  \<close>
\<close>

definition has_target_template :: "string \<Rightarrow> string \<Rightarrow> bool" where
  "has_target_template text target = (search True (target_pattern target) text \<noteq> None)"

text \<open>
  The scan of \<open>replace_templates\<close>:
  \<^verbatim>\<open>
  source_found = []
  for source in source_templates:
      pattern = r'\{\{\s*' + re.escape(source) + r'\s*(\|[^\}]*)?\}\}'
      matches = list(re.finditer(pattern, text, re.IGNORECASE))
      if matches:
          source_found.extend([(source, m) for m in matches])
  \<close>
\<close>

definition find_sources :: "string \<Rightarrow> string list \<Rightarrow> (string \<times> rmatch) list" where
  "find_sources text source_templates =
     concat (map (\<lambda>source. map (Pair source) (finditer True (source_pattern source) text))
                 source_templates)"

text \<open>\<open>source_found.sort(key=lambda x: x[1].start())\<close>; Python's sort is stable, as is \<open>sort_key\<close>.\<close>

definition sort_by_start :: "(string \<times> rmatch) list \<Rightarrow> (string \<times> rmatch) list" where
  "sort_by_start found = sort_key (\<lambda>x. m_start (snd x)) found"

text \<open>
  The branch for an existing target:
  \<^verbatim>\<open>
  for source, match in reversed(source_found):
      text = text[:match.start()] + text[match.end():]
  \<close>
\<close>

definition cut_span :: "string \<Rightarrow> string \<times> rmatch \<Rightarrow> string" where
  "cut_span text sm = take (m_start (snd sm)) text @ drop (m_end (snd sm)) text"

definition remove_all_sources :: "string \<Rightarrow> (string \<times> rmatch) list \<Rightarrow> string" where
  "remove_all_sources text source_found = foldl cut_span text (rev source_found)"

text \<open>
  The loop of the other branch, with its running offset:
  \<^verbatim>\<open>
  for source, match in source_found[1:]:
      new_start = match.start() + offset if match.start() > first_match.start() else match.start()
      new_end = match.end() + offset if match.end() > first_match.start() else match.end()
      text = text[:new_start] + text[new_end:]
      offset -= (new_end - new_start)
  \<close>
\<close>

definition remove_rest_step :: "rmatch \<Rightarrow> string \<times> int \<Rightarrow> string \<times> rmatch \<Rightarrow> string \<times> int" where
  "remove_rest_step first_match st sm =
     (let text = fst st; offset = snd st; match = snd sm;
          new_start = (if m_start match > m_start first_match then int (m_start match) + offset
                       else int (m_start match));
          new_end = (if m_end match > m_start first_match then int (m_end match) + offset
                     else int (m_end match))
      in (slice_to text new_start @ slice_from text new_end, offset - (new_end - new_start)))"

definition remove_rest :: "rmatch \<Rightarrow> string \<times> int \<Rightarrow> (string \<times> rmatch) list \<Rightarrow> string \<times> int" where
  "remove_rest first_match st rest = foldl (remove_rest_step first_match) st rest"

text \<open>The two clean-up substitutions, \<open>re.sub(r'\n\n+', '\n\n', text)\<close> and \<open>re.sub(r'  +', ' ', text)\<close>.\<close>

definition collapse_blank_lines :: "string \<Rightarrow> string" where
  "collapse_blank_lines text =
     re_sub False [One (Only (CHR 0x0A)), Many1 (Only (CHR 0x0A))] [CHR 0x0A, CHR 0x0A] text"

definition collapse_spaces :: "string \<Rightarrow> string" where
  "collapse_spaces text =
     re_sub False [One (Only (CHR '' '')), Many1 (Only (CHR '' ''))] [CHR '' ''] text"

text \<open>\<open>limit = custom_limit if custom_limit else default_limit\<close>: \<open>None\<close> and \<open>0\<close> are both false.\<close>

definition choose_limit :: "int option \<Rightarrow> int \<Rightarrow> int" where
  "choose_limit custom_limit default_limit =
     (case custom_limit of
        None \<Rightarrow> default_limit
      | Some n \<Rightarrow> if n \<noteq> 0 then n else default_limit)"

text \<open>\<open>replacement = f'{{{{{target_template}|{limit}}}}}'\<close>\<close>

definition replacement_text :: "string \<Rightarrow> int \<Rightarrow> string" where
  "replacement_text target_template limit = ''{{'' @ target_template @ ''|'' @ str_int limit @ ''}}''"

definition replaced_action :: "string \<Rightarrow> string \<Rightarrow> int \<Rightarrow> nat \<Rightarrow> string" where
  "replaced_action first_source target_template limit n =
     ''Replaced '' @ first_source @ '' with '' @ target_template @ ''|'' @ str_int limit @
     (if n > 1 then '' and removed '' @ str_int (int n - 1) @ '' duplicate(s)'' else [])"

text \<open>
  \<open>replace_templates(text, source_templates, target_template, default_limit)\<close>, returning
  \<open>(text, changed, action)\<close>:
  \<^verbatim>\<open>
  target_exists = has_target_template(text, target_template)
  source_found = ...                      # the scan above
  if not source_found:
      return text, False, "No source templates found"
  source_found.sort(key=lambda x: x[1].start())
  if target_exists:
      for source, match in reversed(source_found): ...
      text = re.sub(r'\n\n+', '\n\n', text)
      text = re.sub(r'  +', ' ', text)
      changed = True
      action = "Removed redundant source templates (target already exists)"
  else:
      first_source, first_match = source_found[0]
      custom_limit = extract_limit_from_template(first_match.group(0), first_source)
      limit = custom_limit if custom_limit else default_limit
      replacement = f'{{{{{target_template}|{limit}}}}}'
      text = text[:first_match.start()] + replacement + text[first_match.end():]
      offset = len(replacement) - len(first_match.group(0))
      for source, match in source_found[1:]: ...
      text = re.sub(r'\n\n+', '\n\n', text)
      changed = True
      action = f"Replaced {first_source} with {target_template}|{limit}" + \
          (f" and removed {len(source_found)-1} duplicate(s)" if len(source_found) > 1 else "")
  return text, changed, action
  \<close>
  The sorted list has an element where \<open>source_found[0]\<close> is read, so the case of an
  empty sorted list below is never taken. \<open>int\<close> and \<open>str\<close> are taken without the
  interpreter's limit on the number of digits of a conversion.
\<close>

definition replace_templates ::
  "string \<Rightarrow> string list \<Rightarrow> string \<Rightarrow> int \<Rightarrow> string \<times> bool \<times> string" where
  "replace_templates text source_templates target_template default_limit =
     (let target_exists = has_target_template text target_template;
          source_found = find_sources text source_templates
      in if source_found = [] then (text, False, ''No source templates found'')
         else
           (case sort_by_start source_found of
              [] \<Rightarrow> (text, False, ''No source templates found'')
            | (first_source, first_match) # rest \<Rightarrow>
                if target_exists then
                  (collapse_spaces (collapse_blank_lines
                     (remove_all_sources text ((first_source, first_match) # rest))),
                   True, ''Removed redundant source templates (target already exists)'')
                else
                  (let custom_limit = extract_limit_from_template (m_text first_match) first_source;
                       limit = choose_limit custom_limit default_limit;
                       replacement = replacement_text target_template limit;
                       text1 = take (m_start first_match) text @ replacement
                               @ drop (m_end first_match) text;
                       offset = int (length replacement) - int (length (m_text first_match))
                   in (collapse_blank_lines (fst (remove_rest first_match (text1, offset) rest)),
                       True,
                       replaced_action first_source target_template limit
                         (length ((first_source, first_match) # rest))))))"

section \<open>\<open>category_diffusion_bot.py\<close>\<close>

text \<open>
  \<^verbatim>\<open>
  def count_files_in_category(category, threshold):
      count = 0
      try:
          for _ in category.members(namespaces=[6], total=threshold + 1):
              count += 1
              if count > threshold:
                  break
      except Exception as e:
          logging.warning(...)
      return count
  \<close>
  The generator of the site library is an input: the sequence of its steps, each a
  member or an exception. The loop stops by itself, whatever the generator does with
  \<open>total\<close>.
\<close>

datatype 'a step = Yield 'a | Raise

fun count_loop :: "int \<Rightarrow> int \<Rightarrow> 'a step list \<Rightarrow> int" where
  "count_loop threshold count [] = count"
| "count_loop threshold count (Raise # rest) = count"
| "count_loop threshold count (Yield x # rest) =
     (if count + 1 > threshold then count + 1 else count_loop threshold (count + 1) rest)"

definition count_files_in_category :: "'a step list \<Rightarrow> int \<Rightarrow> int" where
  "count_files_in_category members threshold = count_loop threshold 0 members"

text \<open>
  The decision of \<open>main\<close> for one subcategory:
  \<^verbatim>\<open>
  file_count = count_files_in_category(subcat, threshold)
  if file_count <= threshold:
      ... remove_category_from_parent(subcat, parent_category, dry_run, threshold) ...
  else:
      ... keeping in list ...
  \<close>
\<close>

datatype decision = Removing | Keeping

definition decide :: "int \<Rightarrow> int \<Rightarrow> decision" where
  "decide file_count threshold = (if file_count \<le> threshold then Removing else Keeping)"

definition process_subcategory :: "'a step list \<Rightarrow> int \<Rightarrow> decision" where
  "process_subcategory members threshold = decide (count_files_in_category members threshold) threshold"

text \<open>
  The text part of \<open>remove_category_from_parent\<close>, from the page text to the text that
  is saved and the flag that is returned (fetching and saving the page are the caller's
  side); on Python 3.7 or later, where \<open>re.escape\<close> leaves the colon alone and the
  pattern is the title, literally, between \<open>\[\[\<close> and \<open>\|[^\]]*\]\]\<close>:
  \<^verbatim>\<open>
  parent_tag = f"[[{parent_title}]]"
  parent_tag_with_pipe = f"[[{parent_title}|"
  if parent_tag not in text and parent_tag_with_pipe not in text:
      return False
  new_text = text
  if parent_tag in text:
      new_text = new_text.replace(parent_tag, "")
  pattern = re.escape(parent_title).replace(':', r'\:')
  new_text = re.sub(rf'\[\[{pattern}\|[^\]]*\]\]', '', new_text)
  if new_text == text:
      return False
  ...
  return True
  \<close>
\<close>

definition pipe_pattern :: "string \<Rightarrow> item list" where
  "pipe_pattern parent_title =
     [One (Only (CHR ''[''))] @ [One (Only (CHR ''[''))] @ lits parent_title @
     [One (Only (CHR ''|'')), Many (Except (CHR '']'')),
      One (Only (CHR '']'')), One (Only (CHR '']''))]"

definition remove_category_from_parent :: "string \<Rightarrow> string \<Rightarrow> string \<times> bool" where
  "remove_category_from_parent text parent_title =
     (let parent_tag = ''[['' @ parent_title @ '']]'';
          parent_tag_with_pipe = ''[['' @ parent_title @ ''|''
      in if \<not> contains parent_tag text \<and> \<not> contains parent_tag_with_pipe text
         then (text, False)
         else
           (let new_text = (if contains parent_tag text then py_replace parent_tag [] text else text);
                new_text = re_sub False (pipe_pattern parent_title) [] new_text
            in if new_text = text then (text, False) else (new_text, True)))"

section \<open>\<open>replace_catdiffuse.py\<close>\<close>


























section \<open>Vocabulary of the statements\<close>

text \<open>All the suffixes of a text, the text itself first: the places where a scan can start.\<close>

fun tails :: "'a list \<Rightarrow> 'a list list" where
  "tails [] = [[]]"
| "tails (x # xs) = (x # xs) # tails xs"

text \<open>No two consecutive occurrences of a list overlap.\<close>

fun disjoint_spans :: "(string \<times> rmatch) list \<Rightarrow> bool" where
  "disjoint_spans [] = True"
| "disjoint_spans [a] = True"
| "disjoint_spans (a # b # rest) = (m_end (snd a) \<le> m_start (snd b) \<and> disjoint_spans (b # rest))"

text \<open>The text from position \<open>cur\<close> on, without the spans of the occurrences.\<close>

fun gaps :: "nat \<Rightarrow> (string \<times> rmatch) list \<Rightarrow> string \<Rightarrow> string" where
  "gaps cur [] text = drop cur text"
| "gaps cur (sm # rest) text =
     take (m_start (snd sm) - cur) (drop cur text) @ gaps (m_end (snd sm)) rest text"

text \<open>
  Every span starts at or after \<open>cur\<close>, is not empty, lies inside a text of length \<open>n\<close>,
  and the next one starts where it ends or later.
\<close>

fun chain_ok :: "nat \<Rightarrow> (string \<times> rmatch) list \<Rightarrow> nat \<Rightarrow> bool" where
  "chain_ok cur [] n = True"
| "chain_ok cur (sm # rest) n =
     (cur \<le> m_start (snd sm) \<and> m_start (snd sm) < m_end (snd sm) \<and> m_end (snd sm) \<le> n
      \<and> chain_ok (m_end (snd sm)) rest n)"

definition span_wf :: "nat \<Rightarrow> rmatch \<Rightarrow> bool" where
  "span_wf n m = (m_start m < m_end m \<and> m_end m \<le> n \<and> length (m_text m) = m_end m - m_start m)"

text \<open>A pattern that cannot match the empty string.\<close>

definition consuming :: "bool \<Rightarrow> item list \<Rightarrow> bool" where
  "consuming ic p = (\<forall>s gs rest. mt ic p s = Some (gs, rest) \<longrightarrow> length rest < length s)"

text \<open>Position \<open>i\<close> lies in none of the spans.\<close>

definition uncovered :: "(string \<times> rmatch) list \<Rightarrow> nat \<Rightarrow> bool" where
  "uncovered found i = (\<forall>sm\<in>set found. \<not> (m_start (snd sm) \<le> i \<and> i < m_end (snd sm)))"




section \<open>Properties of the name normalizer\<close>

lemma lower_char_idem: "lower_char (lower_char c) = lower_char c"
  by (simp add: lower_char_def)

lemma isspace_lower_char: "isspace (lower_char c) = isspace c"
  by (auto simp add: lower_char_def isspace_def)

lemma lower_char_underscore: "lower_char c = CHR ''_'' \<longleftrightarrow> c = CHR ''_''"
  by (auto simp add: lower_char_def)

lemma py_strip_fixed:
  assumes "s = [] \<or> (\<not> isspace (hd s) \<and> \<not> isspace (last s))"
  shows "py_strip s = s"
proof (cases s)
  case Nil
  then show ?thesis by (simp add: py_strip_def)
next
  case (Cons a t)
  with assms have h: "\<not> isspace a" and l: "\<not> isspace (last s)" by auto
  from Cons h have d: "dropWhile isspace s = s" by simp
  from Cons have "rev s \<noteq> []" by simp
  moreover have "hd (rev s) = last s" by (rule hd_rev)
  with l have "\<not> isspace (hd (rev s))" by simp
  ultimately have "dropWhile isspace (rev s) = rev s"
    by (cases "rev s") auto
  with d show ?thesis by (simp add: py_strip_def)
qed

lemma lower_char_space: "lower_char (CHR '' '') = CHR '' ''"
  by (simp add: lower_char_def)

lemma normal_form_chars:
  assumes "c \<in> set (normalize_template_name x)"
  shows "lower_char c = c" and "c \<noteq> CHR ''_''"
proof -
  from assms have "c \<in> (\<lambda>d. if lower_char d = CHR ''_'' then CHR '' '' else lower_char d)
      ` set (py_strip (strip_namespace x))"
    by (simp add: normalize_template_name_def py_replace_char_def py_lower_def comp_def)
  then obtain d where
    c: "c = (if lower_char d = CHR ''_'' then CHR '' '' else lower_char d)"
    by blast
  show "lower_char c = c"
    unfolding c by (simp add: lower_char_space lower_char_idem)
  show "c \<noteq> CHR ''_''"
    unfolding c by simp
qed

lemma normal_form_map_fixed:
  "py_replace_char (CHR ''_'') (CHR '' '') (py_lower (normalize_template_name x))
     = normalize_template_name x"
proof -
  have "map (\<lambda>c. if lower_char c = CHR ''_'' then CHR '' '' else lower_char c)
          (normalize_template_name x) = map (\<lambda>c. c) (normalize_template_name x)"
    by (rule map_cong) (auto dest: normal_form_chars simp: lower_char_underscore)
  then show ?thesis
    by (simp add: py_replace_char_def py_lower_def comp_def)
qed

text \<open>
  Claim C6, as amended. Normalizing twice gives the same name as normalizing once for
  every name whose normal form contains no colon (the name had at most one namespace
  qualifier) and neither starts nor ends with a whitespace character.
\<close>

theorem normalize_idempotent_amended:
  assumes "CHR '':'' \<notin> set (normalize_template_name x)"
    and "normalize_template_name x = [] \<or>
         (\<not> isspace (hd (normalize_template_name x)) \<and>
          \<not> isspace (last (normalize_template_name x)))"
  shows "normalize_template_name (normalize_template_name x) = normalize_template_name x"
proof -
  let ?y = "normalize_template_name x"
  have "strip_namespace ?y = ?y"
    using assms(1) by (simp add: strip_namespace_def)
  moreover have "py_strip ?y = ?y"
    using assms(2) by (rule py_strip_fixed)
  ultimately have "normalize_template_name ?y
      = py_replace_char (CHR ''_'') (CHR '' '') (py_lower ?y)"
    by (simp add: normalize_template_name_def[of ?y])
  then show ?thesis by (simp add: normal_form_map_fixed)
qed

theorem normalize_idempotent_amended_witness:
  "CHR '':'' \<notin> set (normalize_template_name ''Template:Cat_Diffuse '')
   \<and> normalize_template_name ''Template:Cat_Diffuse '' = ''cat diffuse''
   \<and> normalize_template_name (normalize_template_name ''Template:Cat_Diffuse '')
       = normalize_template_name ''Template:Cat_Diffuse ''"
proof -
  have n: "normalize_template_name ''Template:Cat_Diffuse '' = ''cat diffuse''"
    by (simp add: normalize_template_name_def strip_namespace_def after_first_colon_def
        py_strip_def py_lower_def py_replace_char_def lower_char_def isspace_def)
  have c: "CHR '':'' \<notin> set (normalize_template_name ''Template:Cat_Diffuse '')"
    by (simp add: n)
  have e: "normalize_template_name ''Template:Cat_Diffuse '' = [] \<or>
         (\<not> isspace (hd (normalize_template_name ''Template:Cat_Diffuse '')) \<and>
          \<not> isspace (last (normalize_template_name ''Template:Cat_Diffuse '')))"
    by (simp add: n isspace_def)
  from normalize_idempotent_amended [OF c e] c n show ?thesis by simp
qed

text \<open>
  Claim C6 as stated fails: a name with two colons loses one qualifier per call.
\<close>

theorem normalize_idempotent_counterexample:
  "normalize_template_name (normalize_template_name ''Template:Foo:Bar'')
     \<noteq> normalize_template_name ''Template:Foo:Bar''"
proof -
  have a: "normalize_template_name ''Template:Foo:Bar'' = ''foo:bar''"
    by (simp add: normalize_template_name_def strip_namespace_def after_first_colon_def
        py_strip_def py_lower_def py_replace_char_def lower_char_def isspace_def)
  have b: "normalize_template_name ''foo:bar'' = ''bar''"
    by (simp add: normalize_template_name_def strip_namespace_def after_first_colon_def
        py_strip_def py_lower_def py_replace_char_def lower_char_def isspace_def)
  show ?thesis unfolding a b by simp
qed

section \<open>Properties of the matcher, of \<open>search\<close> and of \<open>finditer\<close>\<close>

lemma py_lower_Nil: "py_lower w = [] \<longleftrightarrow> w = []"
  by (simp add: py_lower_def)

lemma py_lower_Cons:
  "py_lower w = py_lower (a # src) \<longleftrightarrow>
     (\<exists>x w'. w = x # w' \<and> lower_char x = lower_char a \<and> py_lower w' = py_lower src)"
  by (cases w) (auto simp add: py_lower_def)

lemma mt_lits:
  "py_lower w = py_lower src \<Longrightarrow> mt True (lits src @ is) (w @ s) = mt True is s"
proof (induction src arbitrary: w)
  case Nil
  then show ?case by (simp add: py_lower_def lits_def)
next
  case (Cons a src)
  from Cons.prems obtain x w' where w: "w = x # w'" and x: "lower_char x = lower_char a"
    and w': "py_lower w' = py_lower src"
    by (auto simp add: py_lower_Cons)
  have "mt True (lits (a # src) @ is) (w @ s) = mt True (lits src @ is) (w' @ s)"
    using w x by (simp add: lits_def)
  with Cons.IH [OF w'] show ?case by simp
qed

lemma mt_lits_exact: "mt False (lits t @ is) (t @ s) = mt False is s"
  by (induction t) (simp_all add: lits_def)

lemma greedy_take_all:
  assumes "\<forall>c\<in>set ws. p c" and "s = [] \<or> \<not> p (hd s)" and "k s = Some r"
  shows "greedy p k (ws @ s) = Some (ws, r)"
  using assms
proof (induction ws)
  case Nil
  then show ?case by (cases s) auto
next
  case (Cons a ws)
  then show ?case by simp
qed

lemma greedy_none:
  assumes "\<forall>c\<in>set ws. p c" and "s = [] \<or> \<not> p (hd s)"
    and "\<forall>t\<in>set (tails ws). k (t @ s) = None"
  shows "greedy p k (ws @ s) = None"
  using assms
proof (induction ws)
  case Nil
  then show ?case by (cases s) auto
next
  case (Cons a ws)
  then show ?case by simp
qed


lemma greedy_Some_split:
  "greedy p k s = Some (w, r) \<Longrightarrow> \<exists>t. s = w @ t \<and> (\<forall>c\<in>set w. p c) \<and> k t = Some r"
proof (induction s arbitrary: w)
  case Nil
  then show ?case by auto
next
  case (Cons x xs)
  show ?case
  proof (cases "p x")
    case True
    show ?thesis
    proof (cases "greedy p k xs")
      case None
      with Cons.prems True show ?thesis by auto
    next
      case (Some wr)
      obtain w' r' where wr: "wr = (w', r')" by (cases wr)
      from Cons.prems True Some wr have w: "w = x # w'" and r: "r' = r" by auto
      from Cons.IH [of w'] Some wr r obtain t where "xs = w' @ t" "\<forall>c\<in>set w'. p c" "k t = Some r"
        by auto
      with w True show ?thesis by auto
    qed
  next
    case False
    with Cons.prems show ?thesis by auto
  qed
qed

lemma mt_suffix: "mt ic p s = Some (gs, rest) \<Longrightarrow> \<exists>w. s = w @ rest"
proof (induction ic p s arbitrary: gs rest rule: mt.induct)
  case (1 ic s)
  then show ?case by simp
next
  case (2 ic c "is" s)
  then show ?case by (cases s) (auto split: if_splits, metis append_Cons)
next
  case (3 ic c "is" s)
  from "3.prems" obtain w where g: "greedy (in_cls ic c) (mt ic is) s = Some (w, (gs, rest))"
    by auto
  from greedy_Some_split [OF g] obtain t where "s = w @ t" "mt ic is t = Some (gs, rest)" by auto
  with "3.IH" [of t gs rest] show ?case by (metis append.assoc)
next
  case (4 ic c "is" s)
  from "4.prems" obtain x xs where s: "s = x # xs" and x: "in_cls ic c x" 
    by (cases s) (auto split: if_splits)
  with "4.prems" obtain w where g: "greedy (in_cls ic c) (mt ic is) xs = Some (w, (gs, rest))"
    by auto
  from greedy_Some_split [OF g] obtain t where "xs = w @ t" "mt ic is t = Some (gs, rest)" by auto
  with "4.IH" [OF s x, of t gs rest] s show ?case by (metis append.assoc append_Cons)
next
  case (5 ic c "is" s)
  from "5.prems" obtain x xs where s: "s = x # xs" and x: "in_cls ic c x" 
    by (cases s) (auto split: if_splits)
  with "5.prems" obtain w gs' where g: "greedy (in_cls ic c) (mt ic is) xs = Some (w, (gs', rest))"
    by (auto split: option.splits)
  from greedy_Some_split [OF g] obtain t where "xs = w @ t" "mt ic is t = Some (gs', rest)" by auto
  with "5.IH" [OF s x, of t gs' rest] s show ?case by (metis append.assoc append_Cons)
next
  case (6 ic g "is" s)
  then show ?case by (auto split: option.splits)
qed

lemma finditer_from_Nil:
  "(\<forall>t\<in>set (tails s). mt ic p t = None) \<Longrightarrow> finditer_from ic p pos s = []"
  by (induction s arbitrary: pos) auto

lemma finditer_from_Nil_conv:
  "finditer_from ic p pos s = [] \<Longrightarrow> (\<forall>t\<in>set (tails s). mt ic p t = None)"
  by (induction s arbitrary: pos) (auto split: option.splits if_splits)

lemma search_from_None:
  "(\<forall>t\<in>set (tails s). mt ic p t = None) \<Longrightarrow> search_from ic p pos s = None"
  by (induction s arbitrary: pos) auto

lemma search_from_hit:
  "mt ic p s = Some (gs, rest) \<Longrightarrow>
   search_from ic p pos s =
     Some \<lparr>m_start = pos, m_end = pos + (length s - length rest),
           m_text = take (length s - length rest) s, m_groups = gs\<rparr>"
  by (cases s) auto



lemma find_sources_Nil:
  "(\<forall>source\<in>set srcs. \<forall>t\<in>set (tails text). mt True (source_pattern source) t = None)
   \<Longrightarrow> find_sources text srcs = []"
  by (simp add: find_sources_def finditer_def finditer_from_Nil)

lemma source_pattern_empty: "mt ic (source_pattern source) [] = None"
  by (simp add: source_pattern_def)

section \<open>The two editing loops\<close>

lemma chain_ok_from_disjoint:
  "disjoint_spans found \<Longrightarrow> \<forall>sm\<in>set found. span_wf n (snd sm) \<Longrightarrow>
   (found \<noteq> [] \<longrightarrow> cur \<le> m_start (snd (hd found))) \<Longrightarrow> chain_ok cur found n"
proof (induction found arbitrary: cur rule: disjoint_spans.induct)
  case 1
  then show ?case by simp
next
  case (2 a)
  then show ?case by (simp add: span_wf_def)
next
  case (3 a b rest)
  from "3.prems" have d: "disjoint_spans (b # rest)" and ab: "m_end (snd a) \<le> m_start (snd b)"
    and wf: "\<forall>sm\<in>set (b # rest). span_wf n (snd sm)" and a: "span_wf n (snd a)"
    and cur: "cur \<le> m_start (snd a)" by auto
  from "3.IH" [OF d wf, of "m_end (snd a)"] ab have "chain_ok (m_end (snd a)) (b # rest) n" by simp
  with a cur show ?case by (simp add: span_wf_def)
qed

lemma foldr_cut_gaps:
  "chain_ok cur found (length text) \<Longrightarrow>
   foldr (\<lambda>sm t. cut_span t sm) found text = take cur text @ gaps cur found text"
proof (induction found arbitrary: cur)
  case Nil
  then show ?case by simp
next
  case (Cons sm found)
  let ?s = "m_start (snd sm)" and ?e = "m_end (snd sm)"
  from Cons.prems have c: "cur \<le> ?s" "?s < ?e" "?e \<le> length text"
    and ch: "chain_ok ?e found (length text)" by auto
  from Cons.IH [OF ch] have ih: "foldr (\<lambda>sm t. cut_span t sm) found text = take ?e text @ gaps ?e found text" .
  have "foldr (\<lambda>sm t. cut_span t sm) (sm # found) text = cut_span (take ?e text @ gaps ?e found text) sm"
    using ih by simp
  also have "\<dots> = take ?s text @ gaps ?e found text"
    using c by (simp add: cut_span_def min_def)
  also have "take ?s text = take cur text @ take (?s - cur) (drop cur text)"
    using c by (metis le_add_diff_inverse take_add)
  finally show ?case by simp
qed

lemma remove_all_sources_gaps:
  "chain_ok 0 found (length text) \<Longrightarrow> remove_all_sources text found = gaps 0 found text"
  using foldr_cut_gaps [of 0 found "text"]
  by (simp add: remove_all_sources_def foldr_conv_foldl)

lemma slice_to_nat: "slice_to t (int n) = take n t"
  by (simp add: slice_to_def)

lemma slice_from_nat: "slice_from t (int n) = drop n t"
  by (simp add: slice_from_def)

lemma remove_rest_gaps:
  assumes "chain_ok e found (length text)" and "m_start first_match < e" and "e \<le> length text"
  shows "remove_rest first_match (P @ drop e text, int (length P) - int e) found
           = (P @ gaps e found text, int (length (P @ gaps e found text)) - int (length text))"
  using assms
proof (induction found arbitrary: P e)
  case Nil
  then show ?case by (simp add: remove_rest_def)
next
  case (Cons sm found)
  let ?s = "m_start (snd sm)" and ?f = "m_end (snd sm)"
  let ?off = "int (length P) - int e"
  from Cons.prems have c: "e \<le> ?s" "?s < ?f" "?f \<le> length text"
    and ch: "chain_ok ?f found (length text)" by auto
  from c Cons.prems have gt: "?s > m_start first_match" "?f > m_start first_match" by auto
  have ns: "int ?s + ?off = int (length P + (?s - e))" using c by simp
  have ne: "int ?f + ?off = int (length P + (?f - e))" using c by simp
  let ?P' = "P @ take (?s - e) (drop e text)"
  have lenP': "length ?P' = length P + (?s - e)" using c by simp
  have st: "slice_to (P @ drop e text) (int ?s + ?off) = ?P'"
    unfolding ns slice_to_nat by simp
  have sf: "slice_from (P @ drop e text) (int ?f + ?off) = drop ?f text"
    unfolding ne slice_from_nat using c by simp
  have step: "remove_rest_step first_match (P @ drop e text, ?off) sm
      = (?P' @ drop ?f text, int (length ?P') - int ?f)"
    using gt st sf c by (simp add: remove_rest_step_def Let_def)
  have "remove_rest first_match (P @ drop e text, ?off) (sm # found)
      = remove_rest first_match (?P' @ drop ?f text, int (length ?P') - int ?f) found"
    using step by (simp add: remove_rest_def)
  also have "\<dots> = (?P' @ gaps ?f found text, int (length (?P' @ gaps ?f found text)) - int (length text))"
    using Cons.IH [OF ch, of ?P'] gt c by simp
  finally show ?case by simp
qed

lemma mt_One_consumes: "consuming ic (One c # is)"
  unfolding consuming_def
proof (intro allI impI)
  fix s gs rest
  assume a: "mt ic (One c # is) s = Some (gs, rest)"
  then obtain x xs where s: "s = x # xs" and m: "mt ic is xs = Some (gs, rest)"
    by (cases s) (auto split: if_splits)
  from mt_suffix [OF m] obtain w where "xs = w @ rest" by blast
  with s show "length rest < length s" by simp
qed

lemma finditer_from_wf:
  assumes "consuming ic p"
  shows "\<forall>m\<in>set (finditer_from ic p pos s). pos \<le> m_start m \<and> span_wf (pos + length s) m
           \<and> m_text m = take (m_end m - m_start m) (drop (m_start m - pos) s)"
  using assms
proof (induction ic p pos s rule: finditer_from.induct)
  case (1 ic p pos)
  show ?case
  proof (cases "mt ic p []")
    case None
    then show ?thesis by simp
  next
    case (Some r)
    obtain gs rest where r: "r = (gs, rest)" by (cases r)
    from "1.prems" [unfolded consuming_def, rule_format, of "[]" gs rest] Some r
    have False by simp
    then show ?thesis ..
  qed
next
  case (2 ic p pos x xs)
  note cons = "2.prems"
  show ?case
  proof (cases "mt ic p (x # xs)")
    case None
    from "2.IH"(1) [OF None cons] have ih: "\<forall>m\<in>set (finditer_from ic p (Suc pos) xs).
       Suc pos \<le> m_start m \<and> span_wf (Suc pos + length xs) m
       \<and> m_text m = take (m_end m - m_start m) (drop (m_start m - Suc pos) xs)" .
    have "\<And>k. Suc pos \<le> k \<Longrightarrow> drop (k - Suc pos) xs = drop (k - pos) (x # xs)"
      by (auto simp add: drop_Cons')
    with ih None show ?thesis by (auto simp add: span_wf_def)
  next
    case (Some r)
    obtain gs rest where r: "r = (gs, rest)" by (cases r)
    from cons [unfolded consuming_def, rule_format, of "x # xs" gs rest] Some r
    have lt: "length rest < length (x # xs)" by simp
    from mt_suffix Some r obtain w where w: "x # xs = w @ rest" by blast
    let ?n = "length (x # xs) - length rest"
    from w have rest: "rest = drop ?n (x # xs)" by simp
    from "2.IH"(2) [OF Some [unfolded r] refl lt cons]
    have ih: "\<forall>m\<in>set (finditer_from ic p (pos + ?n) rest).
       pos + ?n \<le> m_start m \<and> span_wf (pos + ?n + length rest) m
       \<and> m_text m = take (m_end m - m_start m) (drop (m_start m - (pos + ?n)) rest)" .
    have len: "pos + ?n + length rest = pos + length (x # xs)" using lt by simp
    have dr: "\<And>k. pos + ?n \<le> k \<Longrightarrow> drop (k - (pos + ?n)) rest = drop (k - pos) (x # xs)"
    proof -
      fix k assume "pos + ?n \<le> k"
      then have "k - pos = (k - (pos + ?n)) + ?n" by simp
      then show "drop (k - (pos + ?n)) rest = drop (k - pos) (x # xs)"
        by (metis rest drop_drop)
    qed
    have hd: "span_wf (pos + length (x # xs))
        \<lparr>m_start = pos, m_end = pos + ?n, m_text = take ?n (x # xs), m_groups = gs\<rparr>"
      using lt by (simp add: span_wf_def)
    have fi: "finditer_from ic p pos (x # xs) =
        \<lparr>m_start = pos, m_end = pos + ?n, m_text = take ?n (x # xs), m_groups = gs\<rparr>
        # finditer_from ic p (pos + ?n) rest"
      using Some r lt by simp
    show ?thesis
      unfolding fi
    proof (intro ballI)
      fix m
      assume "m \<in> set (\<lparr>m_start = pos, m_end = pos + ?n, m_text = take ?n (x # xs), m_groups = gs\<rparr>
        # finditer_from ic p (pos + ?n) rest)"
      then consider (h) "m = \<lparr>m_start = pos, m_end = pos + ?n, m_text = take ?n (x # xs), m_groups = gs\<rparr>"
        | (t) "m \<in> set (finditer_from ic p (pos + ?n) rest)" by auto
      then show "pos \<le> m_start m \<and> span_wf (pos + length (x # xs)) m
           \<and> m_text m = take (m_end m - m_start m) (drop (m_start m - pos) (x # xs))"
      proof cases
        case h
        with hd show ?thesis by simp
      next
        case t
        with ih have a: "pos + ?n \<le> m_start m" and b: "span_wf (pos + ?n + length rest) m"
          and c: "m_text m = take (m_end m - m_start m) (drop (m_start m - (pos + ?n)) rest)"
          by auto
        from a have "pos \<le> m_start m" by simp
        moreover from b len have "span_wf (pos + length (x # xs)) m" by simp
        moreover from c dr [OF a] have "m_text m = take (m_end m - m_start m) (drop (m_start m - pos) (x # xs))"
          by simp
        ultimately show ?thesis by blast
      qed
    qed
  qed
qed

lemma source_pattern_consuming: "consuming ic (source_pattern source)"
  unfolding source_pattern_def by (simp add: mt_One_consumes)

lemma find_sources_wf:
  assumes "sm \<in> set (find_sources text srcs)"
  shows "span_wf (length text) (snd sm)"
    and "m_text (snd sm) = take (m_end (snd sm) - m_start (snd sm)) (drop (m_start (snd sm)) text)"
proof -
  from assms obtain source m where sm: "sm = (source, m)"
    and m: "m \<in> set (finditer_from True (source_pattern source) 0 text)"
    by (auto simp add: find_sources_def finditer_def)
  from finditer_from_wf [OF source_pattern_consuming, of True source 0 "text"] m
  have "span_wf (0 + length text) m" and "m_text m = take (m_end m - m_start m) (drop (m_start m - 0) text)"
    by blast+
  with sm show "span_wf (length text) (snd sm)"
    and "m_text (snd sm) = take (m_end (snd sm) - m_start (snd sm)) (drop (m_start (snd sm)) text)"
    by simp_all
qed

lemma set_sort_by_start: "set (sort_by_start found) = set found"
  by (simp add: sort_by_start_def)


lemma sorted_sort_by_start: "sorted (map (\<lambda>x. m_start (snd x)) (sort_by_start found))"
  by (simp add: sort_by_start_def)

lemma first_is_earliest:
  assumes "sort_by_start found = first # rest" and "sm \<in> set rest"
  shows "m_start (snd first) \<le> m_start (snd sm)"
  using sorted_sort_by_start [of found] assms by auto

lemma found_chain_ok:
  assumes "sort_by_start (find_sources text srcs) = found" and "disjoint_spans found"
  shows "chain_ok 0 found (length text)"
proof (rule chain_ok_from_disjoint [OF assms(2)])
  show "\<forall>sm\<in>set found. span_wf (length text) (snd sm)"
    using find_sources_wf(1) [of _ "text" srcs] assms(1) set_sort_by_start by blast
  show "found \<noteq> [] \<longrightarrow> 0 \<le> m_start (snd (hd found))" by simp
qed

lemma replace_templates_unfold:
  assumes "sort_by_start (find_sources text source_templates) = (first_source, first_match) # rest"
  shows "replace_templates text source_templates target_template default_limit =
    (if has_target_template text target_template then
       (collapse_spaces (collapse_blank_lines
          (remove_all_sources text ((first_source, first_match) # rest))),
        True, ''Removed redundant source templates (target already exists)'')
     else
       (collapse_blank_lines (fst (remove_rest first_match
          (take (m_start first_match) text
           @ replacement_text target_template
               (choose_limit (extract_limit_from_template (m_text first_match) first_source)
                  default_limit)
           @ drop (m_end first_match) text,
           int (length (replacement_text target_template
               (choose_limit (extract_limit_from_template (m_text first_match) first_source)
                  default_limit)))
           - int (length (m_text first_match))) rest)),
        True,
        replaced_action first_source target_template
          (choose_limit (extract_limit_from_template (m_text first_match) first_source)
             default_limit)
          (length ((first_source, first_match) # rest))))"
proof -
  have ne: "find_sources text source_templates \<noteq> []"
  proof
    assume "find_sources text source_templates = []"
    then have "sort_by_start (find_sources text source_templates) = []"
      by (simp add: sort_by_start_def)
    with assms show False by simp
  qed
  show ?thesis
    unfolding replace_templates_def Let_def
    by (simp only: ne if_False assms list.case prod.case)
qed

lemma replace_templates_redundant:
  assumes "sort_by_start (find_sources text source_templates) = found"
    and "found \<noteq> []"
    and "has_target_template text target_template"
    and "disjoint_spans found"
  shows "replace_templates text source_templates target_template default_limit
           = (collapse_spaces (collapse_blank_lines (gaps 0 found text)), True,
              ''Removed redundant source templates (target already exists)'')"
proof -
  from assms(2) obtain first_source first_match rest where
    f: "found = (first_source, first_match) # rest"
    by (cases found) auto
  have g: "remove_all_sources text found = gaps 0 found text"
    by (rule remove_all_sources_gaps) (rule found_chain_ok [OF assms(1) assms(4)])
  from assms(1) f have "sort_by_start (find_sources text source_templates)
      = (first_source, first_match) # rest" by simp
  from replace_templates_unfold [OF this, of target_template default_limit] assms(3) g f
  show ?thesis by (simp only: if_True)
qed

lemma replace_templates_first:
  assumes "sort_by_start (find_sources text source_templates) = (first_source, first_match) # rest"
    and "\<not> has_target_template text target_template"
    and "disjoint_spans ((first_source, first_match) # rest)"
  shows "replace_templates text source_templates target_template default_limit
           = (collapse_blank_lines
                (take (m_start first_match) text
                 @ replacement_text target_template
                     (choose_limit (extract_limit_from_template (m_text first_match) first_source)
                        default_limit)
                 @ gaps (m_end first_match) rest text),
              True,
              replaced_action first_source target_template
                (choose_limit (extract_limit_from_template (m_text first_match) first_source)
                   default_limit)
                (Suc (length rest)))"
proof -
  let ?limit = "choose_limit (extract_limit_from_template (m_text first_match) first_source) default_limit"
  let ?repl = "replacement_text target_template ?limit"
  let ?s = "m_start first_match" and ?e = "m_end first_match"
  from found_chain_ok [OF assms(1) assms(3)]
  have se: "?s < ?e" "?e \<le> length text" and ch: "chain_ok ?e rest (length text)"
    by auto
  have "(first_source, first_match) \<in> set (sort_by_start (find_sources text source_templates))"
    unfolding assms(1) by simp
  then have "(first_source, first_match) \<in> set (find_sources text source_templates)"
    unfolding set_sort_by_start .
  from find_sources_wf(1) [OF this] have tl: "length (m_text first_match) = ?e - ?s"
    by (simp add: span_wf_def)
  let ?P = "take ?s text @ ?repl"
  have off: "int (length ?repl) - int (length (m_text first_match)) = int (length ?P) - int ?e"
    using se tl by simp
  have "remove_rest first_match (?P @ drop ?e text, int (length ?P) - int ?e) rest
      = (?P @ gaps ?e rest text, int (length (?P @ gaps ?e rest text)) - int (length text))"
    by (rule remove_rest_gaps [OF ch se(1) se(2)])
  then have rr: "fst (remove_rest first_match
       (take ?s text @ ?repl @ drop ?e text,
        int (length ?repl) - int (length (m_text first_match))) rest)
      = take ?s text @ ?repl @ gaps ?e rest text"
    unfolding off by simp
  have len: "length ((first_source, first_match) # rest) = Suc (length rest)" by simp
  from replace_templates_unfold [OF assms(1), of target_template default_limit] assms(2)
  show ?thesis by (simp only: if_False rr len)
qed

lemma map_nth_range:
  assumes "b \<le> length xs"
  shows "map ((!) xs) [a..<b] = take (b - a) (drop a xs)"
proof (rule map_upt_eqI)
  show "length (take (b - a) (drop a xs)) = b - a" using assms by simp
  fix i assume "i < length (take (b - a) (drop a xs))"
  then show "take (b - a) (drop a xs) ! i = xs ! (a + i)" using assms by simp
qed

lemma chain_ok_later:
  "chain_ok cur found n \<Longrightarrow> sm \<in> set found \<Longrightarrow> cur \<le> m_start (snd sm) \<and> m_end (snd sm) \<le> n"
proof (induction found arbitrary: cur)
  case Nil
  then show ?case by simp
next
  case (Cons a found)
  then show ?case by (auto dest: less_imp_le le_trans)
qed

lemma gaps_uncovered:
  "chain_ok cur found (length text) \<Longrightarrow> cur \<le> length text \<Longrightarrow>
   gaps cur found text = map ((!) text) (filter (uncovered found) [cur..<length text])"
proof (induction found arbitrary: cur)
  case Nil
  then show ?case by (simp add: uncovered_def map_nth_range)
next
  case (Cons sm found)
  let ?s = "m_start (snd sm)" and ?e = "m_end (snd sm)" and ?n = "length text"
  from Cons.prems have c: "cur \<le> ?s" "?s < ?e" "?e \<le> ?n"
    and ch: "chain_ok ?e found ?n" by auto
  have later: "\<And>x. x \<in> set found \<Longrightarrow> ?e \<le> m_start (snd x)"
    using chain_ok_later [OF ch] by blast
  have split: "[cur..<?n] = [cur..<?s] @ [?s..<?e] @ [?e..<?n]"
    using c by (metis le_add_diff_inverse less_imp_le upt_add_eq_append le_trans)
  have f1: "filter (uncovered (sm # found)) [cur..<?s] = [cur..<?s]"
  proof -
    have "\<forall>i\<in>set [cur..<?s]. uncovered (sm # found) i"
      using c later by (fastforce simp add: uncovered_def)
    then show ?thesis by (rule filter_True)
  qed
  have f2: "filter (uncovered (sm # found)) [?s..<?e] = []"
    by (rule filter_False) (simp add: uncovered_def)
  have f3: "filter (uncovered (sm # found)) [?e..<?n] = filter (uncovered found) [?e..<?n]"
    by (rule filter_cong) (auto simp add: uncovered_def)
  have "map ((!) text) (filter (uncovered (sm # found)) [cur..<?n])
      = map ((!) text) [cur..<?s] @ map ((!) text) (filter (uncovered found) [?e..<?n])"
    unfolding split by (simp add: f1 f2 f3)
  also have "map ((!) text) [cur..<?s] = take (?s - cur) (drop cur text)"
    using c by (simp add: map_nth_range)
  also have "map ((!) text) (filter (uncovered found) [?e..<?n]) = gaps ?e found text"
    using Cons.IH [OF ch c(3)] by simp
  finally show ?case by simp
qed

lemma chain_ok_mono: "chain_ok cur found n \<Longrightarrow> cur' \<le> cur \<Longrightarrow> chain_ok cur' found n"
  by (cases found) auto

lemma finditer_from_chain:
  assumes "consuming ic p"
  shows "chain_ok pos (map (Pair source) (finditer_from ic p pos s)) (pos + length s)"
  using assms
proof (induction ic p pos s rule: finditer_from.induct)
  case (1 ic p pos)
  show ?case
  proof (cases "mt ic p []")
    case None
    then show ?thesis by simp
  next
    case (Some r)
    obtain gs rest where r: "r = (gs, rest)" by (cases r)
    from "1.prems" [unfolded consuming_def, rule_format, of "[]" gs rest] Some r
    have False by simp
    then show ?thesis ..
  qed
next
  case (2 ic p pos x xs)
  note cons = "2.prems"
  show ?case
  proof (cases "mt ic p (x # xs)")
    case None
    from "2.IH"(1) [OF None cons]
    have "chain_ok (Suc pos) (map (Pair source) (finditer_from ic p (Suc pos) xs))
            (Suc pos + length xs)" .
    then have "chain_ok pos (map (Pair source) (finditer_from ic p (Suc pos) xs))
            (Suc pos + length xs)" by (rule chain_ok_mono) simp
    with None show ?thesis by simp
  next
    case (Some r)
    obtain gs rest where r: "r = (gs, rest)" by (cases r)
    from cons [unfolded consuming_def, rule_format, of "x # xs" gs rest] Some r
    have lt: "length rest < length (x # xs)" by simp
    let ?n = "length (x # xs) - length rest"
    from "2.IH"(2) [OF Some [unfolded r] refl lt cons]
    have ih: "chain_ok (pos + ?n) (map (Pair source) (finditer_from ic p (pos + ?n) rest))
            (pos + ?n + length rest)" .
    have len: "pos + ?n + length rest = pos + length (x # xs)" using lt by simp
    have fi: "finditer_from ic p pos (x # xs) =
        \<lparr>m_start = pos, m_end = pos + ?n, m_text = take ?n (x # xs), m_groups = gs\<rparr>
        # finditer_from ic p (pos + ?n) rest"
      using Some r lt by simp
    show ?thesis
      unfolding fi using ih lt unfolding len by simp
  qed
qed

lemma chain_ok_sorted:
  "chain_ok cur found n \<Longrightarrow> sorted (map (\<lambda>x. m_start (snd x)) found)"
proof (induction found arbitrary: cur)
  case Nil
  then show ?case by simp
next
  case (Cons sm found)
  then have ch: "chain_ok (m_end (snd sm)) found n" and lt: "m_start (snd sm) < m_end (snd sm)"
    by auto
  from chain_ok_later [OF ch] lt
  have "\<forall>x\<in>set found. m_start (snd sm) \<le> m_start (snd x)" by fastforce
  with Cons.IH [OF ch] show ?case by simp
qed

lemma chain_ok_disjoint: "chain_ok cur found n \<Longrightarrow> disjoint_spans found"
  by (induction found arbitrary: cur rule: disjoint_spans.induct) auto

text \<open>
  The occurrences found under one source name never overlap: the hypothesis of the two
  theorems on the editing branches holds for every text when the list has one name.
\<close>

lemma one_source_name_never_overlaps:
  "disjoint_spans (sort_by_start (find_sources text [source]))"
proof -
  have f: "find_sources text [source]
             = map (Pair source) (finditer_from True (source_pattern source) 0 text)"
    by (simp add: find_sources_def finditer_def)
  have "chain_ok 0 (map (Pair source) (finditer_from True (source_pattern source) 0 text))
          (0 + length text)"
    by (rule finditer_from_chain [OF source_pattern_consuming])
  then have ch: "chain_ok 0 (find_sources text [source]) (length text)"
    unfolding f by simp
  from chain_ok_sorted [OF ch] have "sort_by_start (find_sources text [source])
      = find_sources text [source]"
    unfolding sort_by_start_def by (rule sort_key_id_if_sorted)
  with chain_ok_disjoint [OF ch] show ?thesis by simp
qed

section \<open>The rewrite engine: no source occurrence\<close>

lemma replace_templates_no_source:
  assumes "\<forall>source\<in>set source_templates. \<forall>t\<in>set (tails text).
             mt True (source_pattern source) t = None"
  shows "replace_templates text source_templates target default_limit
           = (text, False, ''No source templates found'')"
  using find_sources_Nil [OF assms] by (simp add: replace_templates_def)

lemma replace_templates_empty_text:
  "replace_templates [] source_templates target default_limit
     = ([], False, ''No source templates found'')"
  by (rule replace_templates_no_source) (simp add: source_pattern_empty)

text \<open>
  Claim C5. When no position of the text starts a match of the pattern of any source
  name, the engine returns the text as it is, with \<open>changed = False\<close>, whether the
  target is there or not; the function is total, and the empty text is such a text.
\<close>

theorem no_source_no_change:
  assumes "\<forall>source\<in>set source_templates. \<forall>t\<in>set (tails text).
             mt True (source_pattern source) t = None"
  shows "replace_templates text source_templates target default_limit
           = (text, False, ''No source templates found'')
         \<and> replace_templates [] source_templates target default_limit
           = ([], False, ''No source templates found'')"
  using replace_templates_no_source [OF assms] replace_templates_empty_text by simp

theorem no_source_no_change_witness:
  "list_all (\<lambda>t. mt True (source_pattern ''CatDiffuse'') t = None)
     (tails ''{{Diffusion by condition|5}} {{Other}}'')
   \<and> replace_templates ''{{Diffusion by condition|5}} {{Other}}'' [''CatDiffuse'']
         ''Diffusion by condition'' 200
       = (''{{Diffusion by condition|5}} {{Other}}'', False, ''No source templates found'')"
proof -
  have l: "list_all (\<lambda>t. mt True (source_pattern ''CatDiffuse'') t = None)
     (tails ''{{Diffusion by condition|5}} {{Other}}'')"
    by code_simp
  then have h: "\<forall>source\<in>set [''CatDiffuse''].
             \<forall>t\<in>set (tails ''{{Diffusion by condition|5}} {{Other}}'').
             mt True (source_pattern source) t = None"
    by (simp only: list_all_iff list.set ball_simps simp_thms)
  from no_source_no_change [OF h, of "''Diffusion by condition''" 200] l show ?thesis by blast
qed

section \<open>The rewrite engine: replacing the first occurrence\<close>

text \<open>
  Claim C1, as amended. When the scan finds at least one source occurrence, no target
  occurrence, and no two of the occurrences found overlap, the engine returns
  \<open>changed = True\<close> and the text in which the span of the earliest-starting occurrence
  is replaced by \<open>{{target|limit}}\<close> and the span of every other occurrence is cut
  out, whatever source name it was found under, with runs of newlines collapsed to two;
  the limit is read from the text of that first occurrence. Every character outside
  the spans is kept and the invocation is written once.
\<close>

theorem replace_first_remove_rest:
  assumes "sort_by_start (find_sources text source_templates) = (first_source, first_match) # rest"
    and "\<not> has_target_template text target_template"
    and "disjoint_spans ((first_source, first_match) # rest)"
  shows "replace_templates text source_templates target_template default_limit
           = (collapse_blank_lines
                (take (m_start first_match) text
                 @ ''{{'' @ target_template @ ''|''
                 @ str_int (choose_limit
                     (extract_limit_from_template (m_text first_match) first_source) default_limit)
                 @ ''}}''
                 @ gaps (m_end first_match) rest text),
              True,
              replaced_action first_source target_template
                (choose_limit (extract_limit_from_template (m_text first_match) first_source)
                   default_limit)
                (Suc (length rest)))
         \<and> (\<forall>sm\<in>set rest. m_start first_match \<le> m_start (snd sm))
         \<and> m_text first_match
             = take (m_end first_match - m_start first_match) (drop (m_start first_match) text)
         \<and> gaps (m_end first_match) rest text
             = map ((!) text) (filter (uncovered rest) [m_end first_match..<length text])"
proof -
  have a: "replace_templates text source_templates target_template default_limit
           = (collapse_blank_lines
                (take (m_start first_match) text
                 @ ''{{'' @ target_template @ ''|''
                 @ str_int (choose_limit
                     (extract_limit_from_template (m_text first_match) first_source) default_limit)
                 @ ''}}''
                 @ gaps (m_end first_match) rest text),
              True,
              replaced_action first_source target_template
                (choose_limit (extract_limit_from_template (m_text first_match) first_source)
                   default_limit)
                (Suc (length rest)))"
    using replace_templates_first [OF assms, of default_limit]
    by (simp only: replacement_text_def append_assoc)
  have b: "\<forall>sm\<in>set rest. m_start first_match \<le> m_start (snd sm)"
    using first_is_earliest [OF assms(1)] by simp
  have "(first_source, first_match) \<in> set (sort_by_start (find_sources text source_templates))"
    unfolding assms(1) by simp
  then have "(first_source, first_match) \<in> set (find_sources text source_templates)"
    unfolding set_sort_by_start .
  from find_sources_wf(2) [OF this]
  have c: "m_text first_match
             = take (m_end first_match - m_start first_match) (drop (m_start first_match) text)"
    by simp
  from found_chain_ok [OF assms(1) assms(3)]
  have "chain_ok (m_end first_match) rest (length text)" and "m_end first_match \<le> length text"
    by auto
  from gaps_uncovered [OF this]
  have d: "gaps (m_end first_match) rest text
             = map ((!) text) (filter (uncovered rest) [m_end first_match..<length text])" .
  from a b c d show ?thesis by blast
qed

theorem replace_first_remove_rest_witness:
  "sort_by_start (find_sources ''{{CatDiffuse|150}} text {{Cat diffuse}}.''
       [''Cat diffuse'', ''CatDiffuse''])
     = [(''CatDiffuse'', \<lparr>m_start = 0, m_end = 18, m_text = ''{{CatDiffuse|150}}'', m_groups = []\<rparr>),
        (''Cat diffuse'', \<lparr>m_start = 24, m_end = 39, m_text = ''{{Cat diffuse}}'', m_groups = []\<rparr>)]
   \<and> \<not> has_target_template ''{{CatDiffuse|150}} text {{Cat diffuse}}.'' ''Diffusion by condition''
   \<and> replace_templates ''{{CatDiffuse|150}} text {{Cat diffuse}}.''
        [''Cat diffuse'', ''CatDiffuse''] ''Diffusion by condition'' 200
      = (''{{Diffusion by condition|150}} text .'', True,
         ''Replaced CatDiffuse with Diffusion by condition|150 and removed 1 duplicate(s)'')"
proof -
  let ?T = "''{{CatDiffuse|150}} text {{Cat diffuse}}.''"
  let ?m1 = "\<lparr>m_start = 0, m_end = 18, m_text = ''{{CatDiffuse|150}}'', m_groups = []\<rparr>"
  let ?m2 = "\<lparr>m_start = 24, m_end = 39, m_text = ''{{Cat diffuse}}'', m_groups = []\<rparr>"
  have f: "sort_by_start (find_sources ?T [''Cat diffuse'', ''CatDiffuse''])
     = (''CatDiffuse'', ?m1) # [(''Cat diffuse'', ?m2)]"
    by code_simp
  have t: "\<not> has_target_template ?T ''Diffusion by condition''"
    by code_simp
  have d: "disjoint_spans ((''CatDiffuse'', ?m1) # [(''Cat diffuse'', ?m2)])"
    by simp
  have e: "collapse_blank_lines
                (take (m_start ?m1) ?T
                 @ ''{{'' @ ''Diffusion by condition'' @ ''|''
                 @ str_int (choose_limit
                     (extract_limit_from_template (m_text ?m1) ''CatDiffuse'') 200)
                 @ ''}}''
                 @ gaps (m_end ?m1) [(''Cat diffuse'', ?m2)] ?T)
      = ''{{Diffusion by condition|150}} text .''"
    by code_simp
  have g: "replaced_action ''CatDiffuse'' ''Diffusion by condition''
                (choose_limit (extract_limit_from_template (m_text ?m1) ''CatDiffuse'') 200)
                (Suc (length [(''Cat diffuse'', ?m2)]))
      = ''Replaced CatDiffuse with Diffusion by condition|150 and removed 1 duplicate(s)''"
    by code_simp
  from replace_first_remove_rest [OF f t d, of 200]
  have "replace_templates ?T [''Cat diffuse'', ''CatDiffuse''] ''Diffusion by condition'' 200
      = (''{{Diffusion by condition|150}} text .'', True,
         ''Replaced CatDiffuse with Diffusion by condition|150 and removed 1 duplicate(s)'')"
    unfolding e g by blast
  with f t show ?thesis by simp
qed

text \<open>
  Claim C1 as stated fails: a source name written outside an invocation stays in the
  output.
\<close>

theorem source_name_outside_invocation_counterexample:
  "find_sources ''CatDiffuse: {{CatDiffuse}}'' [''CatDiffuse''] \<noteq> []
   \<and> \<not> has_target_template ''CatDiffuse: {{CatDiffuse}}'' ''Diffusion by condition''
   \<and> replace_templates ''CatDiffuse: {{CatDiffuse}}'' [''CatDiffuse''] ''Diffusion by condition'' 200
      = (''CatDiffuse: {{Diffusion by condition|200}}'', True,
         ''Replaced CatDiffuse with Diffusion by condition|200'')
   \<and> contains ''CatDiffuse'' ''CatDiffuse: {{Diffusion by condition|200}}''"
  by code_simp

section \<open>The rewrite engine: the target is already there\<close>

text \<open>
  Claim C2, as amended. When the scan finds at least one source occurrence and a target
  occurrence, and no two of the source occurrences found overlap, the engine returns
  \<open>changed = True\<close> and the input text with exactly the spans of the source occurrences
  cut out, after which runs of newlines are collapsed to two and runs of spaces to one
  over the whole text. Nothing is written: no new target invocation appears, and every
  character outside the spans is kept up to that clean-up.
\<close>

theorem remove_redundant_sources:
  assumes "sort_by_start (find_sources text source_templates) = found"
    and "found \<noteq> []"
    and "has_target_template text target_template"
    and "disjoint_spans found"
  shows "replace_templates text source_templates target_template default_limit
           = (collapse_spaces (collapse_blank_lines (gaps 0 found text)), True,
              ''Removed redundant source templates (target already exists)'')
         \<and> gaps 0 found text = map ((!) text) (filter (uncovered found) [0..<length text])"
proof -
  from found_chain_ok [OF assms(1) assms(4)]
  have "chain_ok 0 found (length text)" .
  from gaps_uncovered [OF this]
  have "gaps 0 found text = map ((!) text) (filter (uncovered found) [0..<length text])"
    by simp
  with replace_templates_redundant [OF assms, of default_limit] show ?thesis by blast
qed

theorem remove_redundant_sources_witness:
  "sort_by_start (find_sources ''{{Diffusion by condition|200}} {{CatDiffuse}} {{Cat diffuse}}''
       [''CatDiffuse'', ''Cat diffuse''])
     = [(''CatDiffuse'', \<lparr>m_start = 31, m_end = 45, m_text = ''{{CatDiffuse}}'', m_groups = []\<rparr>),
        (''Cat diffuse'', \<lparr>m_start = 46, m_end = 61, m_text = ''{{Cat diffuse}}'', m_groups = []\<rparr>)]
   \<and> has_target_template ''{{Diffusion by condition|200}} {{CatDiffuse}} {{Cat diffuse}}''
        ''Diffusion by condition''
   \<and> replace_templates ''{{Diffusion by condition|200}} {{CatDiffuse}} {{Cat diffuse}}''
        [''CatDiffuse'', ''Cat diffuse''] ''Diffusion by condition'' 200
      = (''{{Diffusion by condition|200}} '', True,
         ''Removed redundant source templates (target already exists)'')"
proof -
  let ?T = "''{{Diffusion by condition|200}} {{CatDiffuse}} {{Cat diffuse}}''"
  let ?found = "[(''CatDiffuse'', \<lparr>m_start = 31, m_end = 45, m_text = ''{{CatDiffuse}}'', m_groups = []\<rparr>),
        (''Cat diffuse'', \<lparr>m_start = 46, m_end = 61, m_text = ''{{Cat diffuse}}'', m_groups = []\<rparr>)]"
  have f: "sort_by_start (find_sources ?T [''CatDiffuse'', ''Cat diffuse'']) = ?found"
    by code_simp
  have n: "?found \<noteq> []" by simp
  have t: "has_target_template ?T ''Diffusion by condition''"
    by code_simp
  have d: "disjoint_spans ?found"
    by simp
  have e: "collapse_spaces (collapse_blank_lines (gaps 0 ?found ?T))
      = ''{{Diffusion by condition|200}} ''"
    by code_simp
  from remove_redundant_sources [OF f n t d, of 200]
  have "replace_templates ?T [''CatDiffuse'', ''Cat diffuse''] ''Diffusion by condition'' 200
      = (''{{Diffusion by condition|200}} '', True,
         ''Removed redundant source templates (target already exists)'')"
    unfolding e by blast
  with f t show ?thesis by simp
qed

text \<open>
  Claim C2 as stated fails: the clean-up runs over the whole text, the parameters of
  the existing target invocation included.
\<close>

theorem target_parameter_changed_counterexample:
  "find_sources ''{{Diffusion by condition|note=a  b}} {{CatDiffuse}}'' [''CatDiffuse''] \<noteq> []
   \<and> has_target_template ''{{Diffusion by condition|note=a  b}} {{CatDiffuse}}''
        ''Diffusion by condition''
   \<and> replace_templates ''{{Diffusion by condition|note=a  b}} {{CatDiffuse}}'' [''CatDiffuse'']
        ''Diffusion by condition'' 200
      = (''{{Diffusion by condition|note=a b}} '', True,
         ''Removed redundant source templates (target already exists)'')
   \<and> \<not> contains ''{{Diffusion by condition|note=a  b}}'' ''{{Diffusion by condition|note=a b}} ''"
  by code_simp

section \<open>Source names that differ in case only\<close>

text \<open>
  The configured list holds \<open>CatDiffuse\<close> and \<open>Catdiffuse\<close>, which the case-insensitive
  scan cannot tell apart: every occurrence is found twice, with the same span, and the
  hypothesis of the two theorems above (no two occurrences overlap) fails. The second
  edit then removes the replacement that the first one wrote, or, in the other branch,
  the text that follows the occurrence.
\<close>

lemma configured_names_find_each_occurrence_twice:
  "sort_by_start (find_sources ''{{CatDiffuse}}'' SOURCE_TEMPLATES)
     = [(''CatDiffuse'', \<lparr>m_start = 0, m_end = 14, m_text = ''{{CatDiffuse}}'', m_groups = []\<rparr>),
        (''Catdiffuse'', \<lparr>m_start = 0, m_end = 14, m_text = ''{{CatDiffuse}}'', m_groups = []\<rparr>)]"
  by code_simp

lemma configured_names_replace_first:
  "replace_templates ''{{CatDiffuse}}'' SOURCE_TEMPLATES TARGET_TEMPLATE DEFAULT_LIMIT
     = ([], True, ''Replaced CatDiffuse with Diffusion by condition|200 and removed 1 duplicate(s)'')"
  by code_simp

lemma configured_names_remove_redundant:
  "replace_templates (''{{CatDiffuse}}'' @ [CHR 0x0A] @ ''{{Diffusion by condition|200}}'')
     SOURCE_TEMPLATES TARGET_TEMPLATE DEFAULT_LIMIT
     = (''y condition|200}}'', True, ''Removed redundant source templates (target already exists)'')"
  by code_simp

section \<open>Detection of an invocation\<close>


lemma braces_then_rest:
  "mt True [One (Only (CHR ''}'')), One (Only (CHR ''}''))] (''}}'' @ post) = Some ([], post)"
  by simp







section \<open>The tag remover\<close>

lemma starts_with_iff: "starts_with p s \<longleftrightarrow> (\<exists>post. s = p @ post)"
  by (induction p s rule: starts_with.induct) auto

lemma contains_iff: "contains p s \<longleftrightarrow> (\<exists>pre post. s = pre @ p @ post)"
proof (induction s)
  case Nil
  then show ?case by auto
next
  case (Cons x xs)
  show ?case
  proof
    assume "contains p (x # xs)"
    then consider "starts_with p (x # xs)" | "contains p xs" by auto
    then show "\<exists>pre post. x # xs = pre @ p @ post"
    proof cases
      case 1
      then obtain post where "x # xs = p @ post" by (auto simp add: starts_with_iff)
      then have "x # xs = [] @ p @ post" by simp
      then show ?thesis by blast
    next
      case 2
      with Cons.IH obtain pre post where "xs = pre @ p @ post" by blast
      then have "x # xs = (x # pre) @ p @ post" by simp
      then show ?thesis by blast
    qed
  next
    assume "\<exists>pre post. x # xs = pre @ p @ post"
    then obtain pre post where e: "x # xs = pre @ p @ post" by blast
    show "contains p (x # xs)"
    proof (cases pre)
      case Nil
      with e have "starts_with p (x # xs)" by (auto simp add: starts_with_iff)
      then show ?thesis by simp
    next
      case (Cons a pre')
      with e have "xs = pre' @ p @ post" by simp
      with Cons.IH have "contains p xs" by blast
      then show ?thesis by simp
    qed
  qed
qed

lemma py_replace_length_le: "length (py_replace old [] s) \<le> length s"
proof (induction "length s" arbitrary: s rule: less_induct)
  case less
  show ?case
  proof (cases s)
    case Nil
    then show ?thesis by simp
  next
    case (Cons x xs)
    have ih: "\<And>t. length t < length s \<Longrightarrow> length (py_replace old [] t) \<le> length t"
      using less by blast
    show ?thesis
    proof (cases "old = []")
      case True
      with ih [of xs] Cons show ?thesis by simp
    next
      case False
      show ?thesis
      proof (cases "starts_with old (x # xs)")
        case True
        have "length (drop (length old) (x # xs)) < length s"
          using False Cons by (cases old) auto
        from ih [OF this] False True Cons show ?thesis
          by (simp del: drop_Cons' add: le_diff_conv)
      next
        case f: False
        from ih [of xs] False f Cons show ?thesis by simp
      qed
    qed
  qed
qed

lemma py_replace_length_less:
  "old \<noteq> [] \<Longrightarrow> contains old s \<Longrightarrow> length (py_replace old [] s) < length s"
proof (induction s)
  case Nil
  then show ?case by simp
next
  case (Cons x xs)
  show ?case
  proof (cases "starts_with old (x # xs)")
    case True
    have "length (py_replace old [] (drop (length old) (x # xs))) \<le> length (drop (length old) (x # xs))"
      by (rule py_replace_length_le)
    also have "\<dots> < length (x # xs)" using Cons.prems(1) by (cases old) auto
    finally show ?thesis using True Cons.prems(1) by (simp del: drop_Cons')
  next
    case False
    with Cons.prems have "contains old xs" by simp
    from Cons.IH [OF Cons.prems(1) this] False Cons.prems(1) show ?thesis by simp
  qed
qed

lemma py_replace_absent: "old \<noteq> [] \<Longrightarrow> \<not> contains old s \<Longrightarrow> py_replace old new s = s"
  by (induction s) auto

lemma re_sub_length_le: "length (re_sub ic p [] s) \<le> length s"
proof (induction "length s" arbitrary: s rule: less_induct)
  case less
  have ih: "\<And>t. length t < length s \<Longrightarrow> length (re_sub ic p [] t) \<le> length t"
    using less by blast
  show ?case
  proof (cases s)
    case Nil
    then show ?thesis by (simp split: option.splits)
  next
    case (Cons x xs)
    show ?thesis
    proof (cases "mt ic p (x # xs)")
      case None
      with ih [of xs] Cons show ?thesis by simp
    next
      case (Some r)
      obtain gs rest where r: "r = (gs, rest)" by (cases r)
      show ?thesis
      proof (cases "length rest < length (x # xs)")
        case True
        with ih [of rest] Some r Cons show ?thesis by simp
      next
        case False
        with ih [of xs] Some r Cons show ?thesis by simp
      qed
    qed
  qed
qed

lemma re_sub_length_less:
  assumes "t \<in> set (tails s)" and "mt ic p t = Some (gs, rest)" and "length rest < length t"
  shows "length (re_sub ic p [] s) < length s"
  using assms
proof (induction s)
  case Nil
  then show ?case by simp
next
  case (Cons x xs)
  show ?case
  proof (cases "mt ic p (x # xs)")
    case None
    with Cons.prems have "t \<in> set (tails xs)" by auto
    from Cons.IH [OF this Cons.prems(2,3)] None show ?thesis by simp
  next
    case (Some r)
    obtain gs' rest' where r: "r = (gs', rest')" by (cases r)
    show ?thesis
    proof (cases "length rest' < length (x # xs)")
      case True
      have "length (re_sub ic p [] rest') \<le> length rest'" by (rule re_sub_length_le)
      with True Some r show ?thesis by simp
    next
      case False
      with Cons.prems Some r have "t \<noteq> x # xs" by auto
      with Cons.prems have "t \<in> set (tails xs)" by auto
      from Cons.IH [OF this Cons.prems(2,3)] Some r False show ?thesis by simp
    qed
  qed
qed

lemma tails_append: "s \<in> set (tails (pre @ s))"
  by (induction pre) (cases s, auto)

lemma pipe_pattern_accepts:
  assumes "CHR '']'' \<notin> set key"
  shows "mt False (pipe_pattern title) (''[['' @ title @ ''|'' @ key @ '']]'' @ post) = Some ([], post)"
proof -
  let ?close = "[One (Only (CHR '']'')), One (Only (CHR '']''))]"
  have k: "mt False ?close ('']]'' @ post) = Some ([], post)" by simp
  have "\<forall>c\<in>set key. in_cls False (Except (CHR '']'')) c" using assms by auto
  from greedy_take_all [where p = "in_cls False (Except (CHR '']''))" and k = "mt False ?close",
      OF this _ k]
  have "greedy (in_cls False (Except (CHR '']''))) (mt False ?close) (key @ '']]'' @ post)
          = Some (key, ([], post))" by simp
  then have "mt False (One (Only (CHR ''|'')) # Many (Except (CHR '']'')) # ?close)
          (''|'' @ key @ '']]'' @ post) = Some ([], post)" by simp
  with mt_lits_exact [of title "One (Only (CHR ''|'')) # Many (Except (CHR '']'')) # ?close"
         "''|'' @ key @ '']]'' @ post"]
  show ?thesis by (simp add: pipe_pattern_def)
qed

lemma remove_category_unfold:
  assumes "contains (''[['' @ title @ '']]'') text \<or> contains (''[['' @ title @ ''|'') text"
  shows "remove_category_from_parent text title =
     (if re_sub False (pipe_pattern title) [] (py_replace (''[['' @ title @ '']]'') [] text) = text
      then (text, False)
      else (re_sub False (pipe_pattern title) [] (py_replace (''[['' @ title @ '']]'') [] text), True))"
proof (cases "contains (''[['' @ title @ '']]'') text")
  case True
  then show ?thesis by (simp add: remove_category_from_parent_def Let_def)
next
  case False
  then have "py_replace (''[['' @ title @ '']]'') [] text = text"
    by (intro py_replace_absent) simp_all
  with False assms show ?thesis by (simp add: remove_category_from_parent_def Let_def)
qed

lemma remove_category_shrinks:
  assumes "contains (''[['' @ title @ '']]'') text
           \<or> (\<exists>pre key post. text = pre @ ''[['' @ title @ ''|'' @ key @ '']]'' @ post
                              \<and> CHR '']'' \<notin> set key)"
  shows "length (re_sub False (pipe_pattern title) [] (py_replace (''[['' @ title @ '']]'') [] text))
           < length text"
proof (cases "contains (''[['' @ title @ '']]'') text")
  case True
  have "length (re_sub False (pipe_pattern title) [] (py_replace (''[['' @ title @ '']]'') [] text))
          \<le> length (py_replace (''[['' @ title @ '']]'') [] text)"
    by (rule re_sub_length_le)
  also have "\<dots> < length text"
    by (rule py_replace_length_less [OF _ True]) simp
  finally show ?thesis .
next
  case False
  then have same: "py_replace (''[['' @ title @ '']]'') [] text = text"
    by (intro py_replace_absent) simp_all
  from False assms obtain pre key post where
    t: "text = pre @ ''[['' @ title @ ''|'' @ key @ '']]'' @ post" and k: "CHR '']'' \<notin> set key"
    by blast
  let ?inv = "''[['' @ title @ ''|'' @ key @ '']]'' @ post"
  have m: "mt False (pipe_pattern title) ?inv = Some ([], post)"
    by (rule pipe_pattern_accepts [OF k])
  have "?inv \<in> set (tails text)" unfolding t by (rule tails_append)
  from re_sub_length_less [OF this m] have "length (re_sub False (pipe_pattern title) [] text) < length text"
    by simp
  with same show ?thesis by simp
qed

text \<open>
  Claim C8, as amended. When neither \<open>[[title]]\<close> nor \<open>[[title|\<close> occurs in the text, the
  text is returned as it is, with \<open>removed = False\<close>. When \<open>[[title]]\<close> occurs, or a
  sort-keyed link \<open>[[title|key]]\<close> whose key has no closing bracket, the result is the
  text after \<open>replace\<close> has deleted the occurrences of the first form and \<open>re.sub\<close> the
  spans of the second through their \<open>]]\<close>; it is shorter than the text, and
  \<open>removed = True\<close>. In every case \<open>removed\<close> says whether the text has changed. The
  title is compared as it is written, case included.
\<close>

theorem remove_tag_amended:
  "(\<not> contains (''[['' @ title @ '']]'') text \<and> \<not> contains (''[['' @ title @ ''|'') text
      \<longrightarrow> remove_category_from_parent text title = (text, False))
   \<and> (contains (''[['' @ title @ '']]'') text
        \<or> (\<exists>pre key post. text = pre @ ''[['' @ title @ ''|'' @ key @ '']]'' @ post
                           \<and> CHR '']'' \<notin> set key)
      \<longrightarrow> remove_category_from_parent text title
            = (re_sub False (pipe_pattern title) []
                 (py_replace (''[['' @ title @ '']]'') [] text), True)
          \<and> length (fst (remove_category_from_parent text title)) < length text)
   \<and> (snd (remove_category_from_parent text title)
        \<longleftrightarrow> fst (remove_category_from_parent text title) \<noteq> text)"
proof (intro conjI impI)
  assume "\<not> contains (''[['' @ title @ '']]'') text \<and> \<not> contains (''[['' @ title @ ''|'') text"
  then show "remove_category_from_parent text title = (text, False)"
    by (simp add: remove_category_from_parent_def)
next
  assume a: "contains (''[['' @ title @ '']]'') text
        \<or> (\<exists>pre key post. text = pre @ ''[['' @ title @ ''|'' @ key @ '']]'' @ post
                           \<and> CHR '']'' \<notin> set key)"
  have c: "contains (''[['' @ title @ '']]'') text \<or> contains (''[['' @ title @ ''|'') text"
  proof (cases "contains (''[['' @ title @ '']]'') text")
    case True
    then show ?thesis by simp
  next
    case False
    with a obtain pre key post where "text = pre @ ''[['' @ title @ ''|'' @ key @ '']]'' @ post"
      by blast
    then have "text = pre @ (''[['' @ title @ ''|'') @ (key @ '']]'' @ post)" by simp
    then have "contains (''[['' @ title @ ''|'') text" unfolding contains_iff by blast
    then show ?thesis by simp
  qed
  from remove_category_shrinks [OF a]
  have l: "length (re_sub False (pipe_pattern title) [] (py_replace (''[['' @ title @ '']]'') [] text))
           < length text" .
  then have ne: "re_sub False (pipe_pattern title) [] (py_replace (''[['' @ title @ '']]'') [] text)
           \<noteq> text" by auto
  from remove_category_unfold [OF c] ne
  show r: "remove_category_from_parent text title
            = (re_sub False (pipe_pattern title) []
                 (py_replace (''[['' @ title @ '']]'') [] text), True)"
    by simp
  from l show "length (fst (remove_category_from_parent text title)) < length text"
    unfolding r by simp
next
  show "snd (remove_category_from_parent text title)
        \<longleftrightarrow> fst (remove_category_from_parent text title) \<noteq> text"
    by (simp add: remove_category_from_parent_def Let_def)
qed

theorem remove_tag_amended_witness:
  "(\<exists>pre key post. ''Some text'' @ [CHR 0x0A] @ ''[[Category:Parent|SortKey]]'' @ [CHR 0x0A] @ ''More text''
        = pre @ ''[['' @ ''Category:Parent'' @ ''|'' @ key @ '']]'' @ post \<and> CHR '']'' \<notin> set key)
   \<and> remove_category_from_parent
        (''Some text'' @ [CHR 0x0A] @ ''[[Category:Parent|SortKey]]'' @ [CHR 0x0A] @ ''More text'')
        ''Category:Parent''
      = (''Some text'' @ [CHR 0x0A, CHR 0x0A] @ ''More text'', True)
   \<and> \<not> contains (''[['' @ ''Category:Parent'' @ '']]'') ''[[category:parent]]''
   \<and> \<not> contains (''[['' @ ''Category:Parent'' @ ''|'') ''[[category:parent]]''
   \<and> remove_category_from_parent ''[[category:parent]]'' ''Category:Parent''
      = (''[[category:parent]]'', False)"
proof -
  let ?T = "''Some text'' @ [CHR 0x0A] @ ''[[Category:Parent|SortKey]]'' @ [CHR 0x0A] @ ''More text''"
  have e: "\<exists>pre key post. ?T
        = pre @ ''[['' @ ''Category:Parent'' @ ''|'' @ key @ '']]'' @ post \<and> CHR '']'' \<notin> set key"
    by (rule exI [of _ "''Some text'' @ [CHR 0x0A]"], rule exI [of _ "''SortKey''"],
        rule exI [of _ "[CHR 0x0A] @ ''More text''"]) simp
  have v: "re_sub False (pipe_pattern ''Category:Parent'') []
                 (py_replace (''[['' @ ''Category:Parent'' @ '']]'') [] ?T)
      = ''Some text'' @ [CHR 0x0A, CHR 0x0A] @ ''More text''"
    by code_simp
  have n1: "\<not> contains (''[['' @ ''Category:Parent'' @ '']]'') ''[[category:parent]]''"
    by code_simp
  have n2: "\<not> contains (''[['' @ ''Category:Parent'' @ ''|'') ''[[category:parent]]''"
    by code_simp
  from remove_tag_amended [of "''Category:Parent''" ?T] e v
  have a: "remove_category_from_parent ?T ''Category:Parent''
      = (''Some text'' @ [CHR 0x0A, CHR 0x0A] @ ''More text'', True)"
    by simp
  from remove_tag_amended [of "''Category:Parent''" "''[[category:parent]]''"] n1 n2
  have b: "remove_category_from_parent ''[[category:parent]]'' ''Category:Parent''
      = (''[[category:parent]]'', False)"
    by blast
  from e a n1 n2 b show ?thesis by blast
qed

text \<open>
  Claim C8 as stated fails: the form \<open>[[title|\<close> occurs, nothing is deleted and
  \<open>removed\<close> is false when the link is not closed.
\<close>

theorem unclosed_sort_key_counterexample:
  "contains (''[['' @ ''Category:Parent'' @ ''|'') ''[[Category:Parent|SortKey''
   \<and> remove_category_from_parent ''[[Category:Parent|SortKey'' ''Category:Parent''
       = (''[[Category:Parent|SortKey'', False)"
  by code_simp

section \<open>Reading the limit\<close>

lemma in_cls_Space_eta: "in_cls ic Space = isspace"
  by (rule ext) simp

lemma in_cls_Digit_eta: "in_cls ic Digit = isdigit"
  by (rule ext) simp

lemma map_option_snd_Pair: "map_option snd (map_option (Pair w) x) = x"
  by (cases x) simp_all

lemma skip_spaces:
  assumes "\<forall>c\<in>set ws. isspace c"
    and "\<And>c r. isspace c \<Longrightarrow> mt True is (c # r) = None"
    and "s = [] \<or> \<not> isspace (hd s)"
  shows "mt True (Many Space # is) (ws @ s) = mt True is s"
  using assms(1)
proof (induction ws)
  case Nil
  from assms(3) show ?case by (cases s) (auto simp add: map_option_snd_Pair)
next
  case (Cons c ws)
  then have c: "isspace c" and ih: "mt True (Many Space # is) (ws @ s) = mt True is s" by auto
  have "mt True (Many Space # is) ((c # ws) @ s)
      = map_option snd (greedy isspace (mt True is) (ws @ s))"
    using c assms(2) [OF c] by (auto simp add: in_cls_Space_eta split: option.splits)
  also have "\<dots> = mt True (Many Space # is) (ws @ s)" by (simp add: in_cls_Space_eta)
  finally show ?case using ih by simp
qed

lemma literal_rejects_space:
  assumes "isspace c" and "\<not> isspace a"
  shows "mt True (One (Only a) # is) (c # r) = None"
proof -
  have "lower_char c \<noteq> lower_char a"
  proof
    assume "lower_char c = lower_char a"
    then have "isspace (lower_char c) = isspace (lower_char a)" by simp
    with assms show False by (simp add: isspace_lower_char)
  qed
  then show ?thesis by simp
qed

lemma digit_not_space: "isdigit c \<Longrightarrow> \<not> isspace c"
  by (auto simp add: isdigit_def isspace_def)

lemma space_not_digit: "isspace c \<Longrightarrow> \<not> isdigit c"
  by (auto simp add: isdigit_def isspace_def)

lemma group_rejects_space:
  assumes "isspace c"
  shows "mt True (Group1 Digit # is) (c # r) = None"
  using assms digit_not_space [of c] by auto

lemma skip_spaces_literal:
  assumes "\<forall>c\<in>set ws. isspace c" and "\<not> isspace a" and "s = [] \<or> \<not> isspace (hd s)"
  shows "mt True (Many Space # One (Only a) # is) (ws @ s) = mt True (One (Only a) # is) s"
  by (rule skip_spaces [OF assms(1) _ assms(3)]) (rule literal_rejects_space [OF _ assms(2)])

lemma skip_spaces_group:
  assumes "\<forall>c\<in>set ws. isspace c" and "s = [] \<or> \<not> isspace (hd s)"
  shows "mt True (Many Space # Group1 Digit # is) (ws @ s) = mt True (Group1 Digit # is) s"
  by (rule skip_spaces [OF assms(1) _ assms(2)]) (rule group_rejects_space)

lemma group_digits:
  assumes "ds \<noteq> []" and "\<forall>c\<in>set ds. isdigit c" and "s = [] \<or> \<not> isdigit (hd s)"
    and "mt True is s = Some (gs, r)"
  shows "mt True (Group1 Digit # is) (ds @ s) = Some (ds # gs, r)"
proof -
  from assms(1) obtain d ds' where ds: "ds = d # ds'" by (cases ds) auto
  with assms(2) have d: "isdigit d" and ds': "\<forall>c\<in>set ds'. isdigit c" by auto
  from greedy_take_all [where p = isdigit and k = "mt True is", OF ds' assms(3) assms(4)]
  have "greedy isdigit (mt True is) (ds' @ s) = Some (ds', (gs, r))" .
  with d ds show ?thesis by (simp add: in_cls_Digit_eta)
qed

lemma group_rejects_nondigit:
  assumes "s = [] \<or> \<not> isdigit (hd s)"
  shows "mt True (Group1 Digit # is) s = None"
  using assms by (cases s) auto

text \<open>The part that the two limit patterns and the source pattern share.\<close>

lemma name_prefix:
  assumes "source \<noteq> []" and "\<not> isspace (hd source)"
    and "py_lower written = py_lower source"
    and "\<forall>c\<in>set ws1. isspace c"
  shows "mt True ([One (Only (CHR ''{'')), One (Only (CHR ''{'')), Many Space] @ lits source @ is)
            (''{{'' @ ws1 @ written @ s)
         = mt True is s"
proof -
  from assms(1) obtain a src' where src: "source = a # src'" by (cases source) auto
  with assms(2) have a: "\<not> isspace a" by simp
  from assms(3) src obtain x w' where w: "written = x # w'" and x: "lower_char x = lower_char a"
    by (auto simp add: py_lower_Cons)
  have "isspace x = isspace a"
    using x isspace_lower_char [of x] isspace_lower_char [of a] by simp
  with a w have hd: "written @ s = [] \<or> \<not> isspace (hd (written @ s))" by simp
  have "mt True ([One (Only (CHR ''{'')), One (Only (CHR ''{'')), Many Space] @ lits source @ is)
            (''{{'' @ ws1 @ written @ s)
        = mt True (Many Space # One (Only a) # (lits src' @ is)) (ws1 @ (written @ s))"
    by (simp add: src lits_def)
  also have "\<dots> = mt True (One (Only a) # (lits src' @ is)) (written @ s)"
    by (rule skip_spaces_literal [OF assms(4) a hd])
  also have "\<dots> = mt True (lits source @ is) (written @ s)"
    by (simp add: src lits_def)
  also have "\<dots> = mt True is s"
    by (rule mt_lits [OF assms(3)])
  finally show ?thesis .
qed

lemma isspace_bar: "\<not> isspace (CHR ''|'')" "\<not> isspace (CHR ''}'')" "\<not> isspace (CHR ''='')"
  "\<not> isspace (CHR ''l'')"
  by (simp_all add: isspace_def)

lemma isdigit_misc: "\<not> isdigit (CHR ''}'')"
  by (simp add: isdigit_def)

lemma close_after_spaces:
  assumes "\<forall>c\<in>set ws. isspace c"
  shows "mt True [Many Space, One (Only (CHR ''}'')), One (Only (CHR ''}''))] (ws @ ''}}'')
           = Some ([], [])"
proof -
  have "mt True [Many Space, One (Only (CHR ''}'')), One (Only (CHR ''}''))] (ws @ ''}}'')
      = mt True [One (Only (CHR ''}'')), One (Only (CHR ''}''))] ''}}''"
    by (rule skip_spaces_literal [OF assms isspace_bar(2)]) (simp add: isspace_def)
  then show ?thesis by simp
qed

lemma positional_form:
  assumes "source \<noteq> []" and "\<not> isspace (hd source)"
    and "py_lower written = py_lower source"
    and "\<forall>c\<in>set ws1. isspace c" and "\<forall>c\<in>set ws2. isspace c"
    and "\<forall>c\<in>set ws3. isspace c" and "\<forall>c\<in>set ws4. isspace c"
    and "digits \<noteq> []" and "\<forall>c\<in>set digits. isdigit c"
  shows "mt True (limit_pattern_positional source)
           (''{{'' @ ws1 @ written @ ws2 @ ''|'' @ ws3 @ digits @ ws4 @ ''}}'')
         = Some ([digits], [])"
proof -
  let ?close = "[Many Space, One (Only (CHR ''}'')), One (Only (CHR ''}''))]"
  let ?R = "[Many Space, One (Only (CHR ''|'')), Many Space, Group1 Digit] @ ?close"
  from assms(8,9) have hdd: "digits @ ws4 @ ''}}'' = [] \<or> \<not> isspace (hd (digits @ ws4 @ ''}}''))"
    by (cases digits) (auto dest: digit_not_space)
  have hdw: "ws4 @ ''}}'' = [] \<or> \<not> isdigit (hd (ws4 @ ''}}''))"
    using assms(7) isdigit_misc by (cases ws4) (auto dest: space_not_digit)
  have "mt True (limit_pattern_positional source)
           (''{{'' @ ws1 @ written @ ws2 @ ''|'' @ ws3 @ digits @ ws4 @ ''}}'')
      = mt True ?R (ws2 @ ''|'' @ ws3 @ digits @ ws4 @ ''}}'')"
    unfolding limit_pattern_positional_def
    using name_prefix [OF assms(1-4), of ?R "ws2 @ ''|'' @ ws3 @ digits @ ws4 @ ''}}''"]
    by simp
  also have "\<dots> = mt True (One (Only (CHR ''|'')) # Many Space # Group1 Digit # ?close)
                      (''|'' @ ws3 @ digits @ ws4 @ ''}}'')"
    using skip_spaces_literal [OF assms(5) isspace_bar(1),
        of "''|'' @ ws3 @ digits @ ws4 @ ''}}''" "Many Space # Group1 Digit # ?close"]
    by (simp add: isspace_def)
  also have "\<dots> = mt True (Many Space # Group1 Digit # ?close) (ws3 @ digits @ ws4 @ ''}}'')"
    by simp
  also have "\<dots> = mt True (Group1 Digit # ?close) (digits @ ws4 @ ''}}'')"
    by (rule skip_spaces_group [OF assms(6) hdd])
  also have "\<dots> = Some ([digits], [])"
    using group_digits [OF assms(8,9) hdw close_after_spaces [OF assms(7)]] by simp
  finally show ?thesis .
qed

lemma limit_keyword_head:
  assumes "py_lower kw = ''limit''"
  shows "kw \<noteq> []" and "\<not> isspace (hd kw)" and "\<not> isdigit (hd kw)"
    and "py_lower kw = py_lower ''limit''"
proof -
  have pl: "py_lower ''limit'' = ''limit''" by (simp add: py_lower_def lower_char_def)
  from assms pl show 4: "py_lower kw = py_lower ''limit''" by simp
  then obtain x w' where kw: "kw = x # w'" and x: "lower_char x = lower_char (CHR ''l'')"
    by (auto simp add: py_lower_Cons)
  from kw show "kw \<noteq> []" by simp
  have l: "lower_char (CHR ''l'') = CHR ''l''" by (simp add: lower_char_def)
  have "isspace x = isspace (CHR ''l'')"
    using x isspace_lower_char [of x] isspace_lower_char [of "CHR ''l''"] by simp
  with kw show "\<not> isspace (hd kw)" by (simp add: isspace_def)
  have "x = CHR ''l'' \<or> x = CHR ''L''"
    using x l by (auto simp add: lower_char_def split: option.splits if_splits)
  with kw show "\<not> isdigit (hd kw)" by (auto simp add: isdigit_def)
qed

text \<open>Up to the first argument, both limit patterns read the same text.\<close>

lemma up_to_first_argument:
  assumes "source \<noteq> []" and "\<not> isspace (hd source)"
    and "py_lower written = py_lower source"
    and "\<forall>c\<in>set ws1. isspace c" and "\<forall>c\<in>set ws2. isspace c"
    and "\<forall>c\<in>set ws3. isspace c"
    and "\<And>c r. isspace c \<Longrightarrow> mt True is (c # r) = None"
    and "s = [] \<or> \<not> isspace (hd s)"
  shows "mt True ([One (Only (CHR ''{'')), One (Only (CHR ''{'')), Many Space] @ lits source @
                  [Many Space, One (Only (CHR ''|'')), Many Space] @ is)
           (''{{'' @ ws1 @ written @ ws2 @ ''|'' @ ws3 @ s)
         = mt True is s"
proof -
  let ?R = "[Many Space, One (Only (CHR ''|'')), Many Space] @ is"
  have "mt True ([One (Only (CHR ''{'')), One (Only (CHR ''{'')), Many Space] @ lits source @ ?R)
           (''{{'' @ ws1 @ written @ ws2 @ ''|'' @ ws3 @ s)
      = mt True ?R (ws2 @ ''|'' @ ws3 @ s)"
    using name_prefix [OF assms(1-4), of ?R "ws2 @ ''|'' @ ws3 @ s"] by simp
  also have "\<dots> = mt True (One (Only (CHR ''|'')) # Many Space # is) (''|'' @ ws3 @ s)"
    using skip_spaces_literal [OF assms(5) isspace_bar(1), of "''|'' @ ws3 @ s" "Many Space # is"]
    by (simp add: isspace_def)
  also have "\<dots> = mt True (Many Space # is) (ws3 @ s)" by simp
  also have "\<dots> = mt True is s"
    by (rule skip_spaces [OF assms(6) assms(7) assms(8)])
  finally show ?thesis by simp
qed


lemma positional_rejects_keyword:
  assumes "source \<noteq> []" and "\<not> isspace (hd source)"
    and "py_lower written = py_lower source"
    and "\<forall>c\<in>set ws1. isspace c" and "\<forall>c\<in>set ws2. isspace c"
    and "\<forall>c\<in>set ws3. isspace c"
    and "py_lower kw = ''limit''"
  shows "mt True (limit_pattern_positional source)
           (''{{'' @ ws1 @ written @ ws2 @ ''|'' @ ws3 @ kw @ s) = None"
proof -
  let ?close = "[Many Space, One (Only (CHR ''}'')), One (Only (CHR ''}''))]"
  from limit_keyword_head [OF assms(7)]
  have hd: "kw @ s = [] \<or> \<not> isspace (hd (kw @ s))" and nd: "kw @ s = [] \<or> \<not> isdigit (hd (kw @ s))"
    by auto
  have "mt True (limit_pattern_positional source)
           (''{{'' @ ws1 @ written @ ws2 @ ''|'' @ ws3 @ kw @ s)
       = mt True (Group1 Digit # ?close) (kw @ s)"
    unfolding limit_pattern_positional_def
    using up_to_first_argument [OF assms(1-6) group_rejects_space hd, of "?close"]
    by simp
  also have "\<dots> = None" by (rule group_rejects_nondigit [OF nd])
  finally show ?thesis .
qed

lemma named_form:
  assumes "source \<noteq> []" and "\<not> isspace (hd source)"
    and "py_lower written = py_lower source"
    and "\<forall>c\<in>set ws1. isspace c" and "\<forall>c\<in>set ws2. isspace c"
    and "\<forall>c\<in>set ws3. isspace c" and "\<forall>c\<in>set ws4. isspace c"
    and "\<forall>c\<in>set ws5. isspace c"
    and "py_lower kw = ''limit''"
    and "digits \<noteq> []" and "\<forall>c\<in>set digits. isdigit c"
    and "rest = [] \<or> \<not> isdigit (hd rest)"
  shows "mt True (limit_pattern_named source)
           (''{{'' @ ws1 @ written @ ws2 @ ''|'' @ ws3 @ kw @ ws4 @ ''='' @ ws5 @ digits @ rest)
         = Some ([digits], rest)"
proof -
  let ?V = "[Many Space, One (Only (CHR ''='')), Many Space, Group1 Digit]"
  let ?K = "lits ''limit'' @ ?V"
  note kw = limit_keyword_head [OF assms(9)]
  let ?s = "kw @ ws4 @ ''='' @ ws5 @ digits @ rest"
  from kw have hd: "?s = [] \<or> \<not> isspace (hd ?s)" by simp
  from assms(10,11) have hdd: "digits @ rest = [] \<or> \<not> isspace (hd (digits @ rest))"
    by (cases digits) (auto dest: digit_not_space)
  have K: "?K = One (Only (CHR ''l'')) # (lits ''imit'' @ ?V)" by (simp add: lits_def)
  have rej: "\<And>c r. isspace c \<Longrightarrow> mt True ?K (c # r) = None"
    unfolding K by (rule literal_rejects_space [OF _ isspace_bar(4)])
  have "mt True (limit_pattern_named source)
           (''{{'' @ ws1 @ written @ ws2 @ ''|'' @ ws3 @ ?s)
      = mt True ?K ?s"
    unfolding limit_pattern_named_def
    using up_to_first_argument [OF assms(1-6) rej hd] by simp
  also have "\<dots> = mt True ?V (ws4 @ ''='' @ ws5 @ digits @ rest)"
    by (rule mt_lits [OF kw(4)])
  also have "\<dots> = mt True (One (Only (CHR ''='')) # [Many Space, Group1 Digit])
                      (''='' @ ws5 @ digits @ rest)"
    using skip_spaces_literal [OF assms(7) isspace_bar(3), of "''='' @ ws5 @ digits @ rest"
        "[Many Space, Group1 Digit]"]
    by (simp add: isspace_def)
  also have "\<dots> = mt True [Many Space, Group1 Digit] (ws5 @ digits @ rest)" by simp
  also have "\<dots> = mt True [Group1 Digit] (digits @ rest)"
    by (rule skip_spaces_group [OF assms(8) hdd])
  also have "\<dots> = Some ([digits], rest)"
    using group_digits [OF assms(10,11,12), of "[]" "[]" rest] by simp
  finally show ?thesis by simp
qed

lemma lower_char_open_brace: "lower_char c = lower_char (CHR ''{'') \<longleftrightarrow> c = CHR ''{''"
  by (auto simp add: lower_char_def)

lemma tails_set: "t \<in> set (tails s) \<Longrightarrow> set t \<subseteq> set s"
  by (induction s) auto

lemma brace_pattern_needs_brace:
  assumes "t = [] \<or> hd t \<noteq> CHR ''{''"
  shows "mt True (One (Only (CHR ''{'')) # is) t = None"
  using assms by (cases t) (auto simp add: lower_char_open_brace)

lemma later_tails_fail:
  assumes "CHR ''{'' \<notin> set body" and "t \<in> set (tails (CHR ''{'' # body))"
  shows "mt True (One (Only (CHR ''{'')) # One (Only (CHR ''{'')) # is) t = None"
proof -
  from assms(2) consider "t = CHR ''{'' # body" | "t \<in> set (tails body)"
    by (cases body) auto
  then show ?thesis
  proof cases
    case 1
    have "body = [] \<or> hd body \<noteq> CHR ''{''" using assms(1) by (cases body) auto
    from brace_pattern_needs_brace [OF this] 1 show ?thesis by simp
  next
    case 2
    from tails_set [OF 2] assms(1) have "t = [] \<or> hd t \<noteq> CHR ''{''" by (cases t) auto
    then show ?thesis by (rule brace_pattern_needs_brace)
  qed
qed

lemma search_only_at_start:
  assumes "CHR ''{'' \<notin> set body"
    and "p = One (Only (CHR ''{'')) # One (Only (CHR ''{'')) # is"
    and "mt True p (''{{'' @ body) = None"
  shows "search True p (''{{'' @ body) = None"
proof -
  have "\<forall>t\<in>set (tails (''{{'' @ body)). mt True p t = None"
  proof
    fix t assume "t \<in> set (tails (''{{'' @ body))"
    then consider "t = ''{{'' @ body" | "t \<in> set (tails (CHR ''{'' # body))" by auto
    then show "mt True p t = None"
    proof cases
      case 1
      with assms(3) show ?thesis by simp
    next
      case 2
      from later_tails_fail [OF assms(1) 2] assms(2) show ?thesis by simp
    qed
  qed
  then show ?thesis unfolding search_def by (rule search_from_None)
qed

lemma search_hit_groups:
  assumes "mt True p s = Some (gs, rest)"
  shows "\<exists>m. search True p s = Some m \<and> m_groups m = gs"
  unfolding search_def using search_from_hit [OF assms, of 0] by simp

lemma positional_pattern_shape:
  "limit_pattern_positional source
     = One (Only (CHR ''{'')) # One (Only (CHR ''{'')) #
       (Many Space # lits source @
        [Many Space, One (Only (CHR ''|'')), Many Space, Group1 Digit, Many Space,
         One (Only (CHR ''}'')), One (Only (CHR ''}''))])"
  by (simp add: limit_pattern_positional_def)


lemma same_case_no_brace:
  assumes "py_lower written = py_lower source" and "CHR ''{'' \<notin> set source"
  shows "CHR ''{'' \<notin> set written"
proof
  assume "CHR ''{'' \<in> set written"
  then have "lower_char (CHR ''{'') \<in> set (py_lower written)"
    by (simp add: py_lower_def)
  with assms(1) have "lower_char (CHR ''{'') \<in> lower_char ` set source"
    by (simp add: py_lower_def)
  then obtain c where "c \<in> set source" and "lower_char c = lower_char (CHR ''{'')" by auto
  with assms(2) show False by (auto simp add: lower_char_open_brace)
qed

lemma spaces_no_brace: "\<forall>c\<in>set ws. isspace c \<Longrightarrow> CHR ''{'' \<notin> set ws"
proof
  assume "\<forall>c\<in>set ws. isspace c" and "CHR ''{'' \<in> set ws"
  then have "isspace (CHR ''{'')" by blast
  then show False by (simp add: isspace_def)
qed

lemma digits_no_brace: "\<forall>c\<in>set ds. isdigit c \<Longrightarrow> CHR ''{'' \<notin> set ds"
proof
  assume "\<forall>c\<in>set ds. isdigit c" and "CHR ''{'' \<in> set ds"
  then have "isdigit (CHR ''{'')" by blast
  then show False by (simp add: isdigit_def)
qed

lemma keyword_no_brace:
  assumes "py_lower kw = ''limit''"
  shows "CHR ''{'' \<notin> set kw"
proof -
  from limit_keyword_head(4) [OF assms]
  show ?thesis by (rule same_case_no_brace) simp
qed

lemma extract_positional:
  assumes "source \<noteq> []" and "\<not> isspace (hd source)"
    and "py_lower written = py_lower source"
    and "\<forall>c\<in>set ws1. isspace c" and "\<forall>c\<in>set ws2. isspace c"
    and "\<forall>c\<in>set ws3. isspace c" and "\<forall>c\<in>set ws4. isspace c"
    and "digits \<noteq> []" and "\<forall>c\<in>set digits. isdigit c"
  shows "extract_limit_from_template
           (''{{'' @ ws1 @ written @ ws2 @ ''|'' @ ws3 @ digits @ ws4 @ ''}}'') source
         = Some (int_of_digits digits)"
proof -
  from search_hit_groups [OF positional_form [OF assms]]
  obtain m where "search True (limit_pattern_positional source)
           (''{{'' @ ws1 @ written @ ws2 @ ''|'' @ ws3 @ digits @ ws4 @ ''}}'') = Some m"
    and "m_groups m = [digits]" by blast
  then show ?thesis by (simp add: extract_limit_from_template_def group1_def)
qed

lemma extract_named:
  assumes "source \<noteq> []" and "\<not> isspace (hd source)" and "CHR ''{'' \<notin> set source"
    and "py_lower written = py_lower source"
    and "\<forall>c\<in>set ws1. isspace c" and "\<forall>c\<in>set ws2. isspace c"
    and "\<forall>c\<in>set ws3. isspace c" and "\<forall>c\<in>set ws4. isspace c"
    and "\<forall>c\<in>set ws5. isspace c"
    and "py_lower kw = ''limit''"
    and "digits \<noteq> []" and "\<forall>c\<in>set digits. isdigit c"
    and "rest = [] \<or> \<not> isdigit (hd rest)" and "CHR ''{'' \<notin> set rest"
  shows "extract_limit_from_template
           (''{{'' @ ws1 @ written @ ws2 @ ''|'' @ ws3 @ kw @ ws4 @ ''='' @ ws5 @ digits @ rest)
           source
         = Some (int_of_digits digits)"
proof -
  let ?body = "ws1 @ written @ ws2 @ ''|'' @ ws3 @ kw @ ws4 @ ''='' @ ws5 @ digits @ rest"
  have nb: "CHR ''{'' \<notin> set ?body"
    using same_case_no_brace [OF assms(4,3)] spaces_no_brace [OF assms(5)]
      spaces_no_brace [OF assms(6)] spaces_no_brace [OF assms(7)] spaces_no_brace [OF assms(8)]
      spaces_no_brace [OF assms(9)] keyword_no_brace [OF assms(10)]
      digits_no_brace [OF assms(12)] assms(14)
    by simp
  have "mt True (limit_pattern_positional source) (''{{'' @ ?body) = None"
    using positional_rejects_keyword [OF assms(1,2,4,5,6,7,10),
        of "ws4 @ ''='' @ ws5 @ digits @ rest"] by simp
  from search_only_at_start [OF nb positional_pattern_shape this]
  have p: "search True (limit_pattern_positional source) (''{{'' @ ?body) = None" .
  have "mt True (limit_pattern_named source) (''{{'' @ ?body) = Some ([digits], rest)"
    using named_form [OF assms(1,2,4,5,6,7,8,9,10,11,12,13)] by simp
  from search_hit_groups [OF this]
  obtain m where "search True (limit_pattern_named source) (''{{'' @ ?body) = Some m"
    and "m_groups m = [digits]" by blast
  with p have "extract_limit_from_template (''{{'' @ ?body) source = Some (int_of_digits digits)"
    by (simp add: extract_limit_from_template_def group1_def)
  then show ?thesis by simp
qed


lemma single_occurrence_found:
  assumes "mt True (source_pattern source) page = Some (gs, [])"
  shows "sort_by_start (find_sources page [source])
           = [(source, \<lparr>m_start = 0, m_end = length page, m_text = page, m_groups = gs\<rparr>)]"
proof -
  from source_pattern_consuming [of True source, unfolded consuming_def, rule_format, OF assms]
  have "page \<noteq> []" by auto
  then obtain x xs where p: "page = x # xs" by (cases page) auto
  have "finditer_from True (source_pattern source) 0 (x # xs)
      = [\<lparr>m_start = 0, m_end = length (x # xs), m_text = x # xs, m_groups = gs\<rparr>]"
    using assms [unfolded p] by (simp add: source_pattern_empty)
  then show ?thesis
    by (simp add: p find_sources_def finditer_def sort_by_start_def)
qed

lemma single_occurrence_rewrite:
  assumes "mt True (source_pattern source) page = Some (gs, [])"
    and "\<not> has_target_template page target_template"
  shows "replace_templates page [source] target_template default_limit
           = (collapse_blank_lines
                (''{{'' @ target_template @ ''|''
                 @ str_int (choose_limit (extract_limit_from_template page source) default_limit)
                 @ ''}}''),
              True,
              replaced_action source target_template
                (choose_limit (extract_limit_from_template page source) default_limit) 1)"
proof -
  let ?m = "\<lparr>m_start = 0, m_end = length page, m_text = page, m_groups = gs\<rparr>"
  have f: "sort_by_start (find_sources page [source]) = (source, ?m) # []"
    by (rule single_occurrence_found [OF assms(1)])
  have d: "disjoint_spans ((source, ?m) # [])" by simp
  from replace_templates_first [OF f assms(2) d, of default_limit]
  show ?thesis by (simp add: replacement_text_def)
qed

section \<open>Every invocation is found, and nothing else\<close>



















section \<open>The limit of the first occurrence\<close>



























section \<open>The member counter and the count boundary\<close>

lemma count_loop_le:
  "count \<le> threshold \<Longrightarrow> count_loop threshold count steps \<le> threshold + 1"
proof (induction steps arbitrary: count)
  case Nil
  then show ?case by simp
next
  case (Cons st steps)
  show ?case
  proof (cases st)
    case (Yield x)
    show ?thesis
    proof (cases "count + 1 > threshold")
      case True
      with Cons.prems Yield show ?thesis by simp
    next
      case False
      then have "count + 1 \<le> threshold" by simp
      from Cons.IH [OF this] False Yield show ?thesis by simp
    qed
  next
    case Raise
    with Cons.prems show ?thesis by simp
  qed
qed

lemma count_loop_all_yield:
  "count \<le> threshold \<Longrightarrow>
   count_loop threshold count (map Yield xs) = min (count + int (length xs)) (threshold + 1)"
proof (induction xs arbitrary: count)
  case Nil
  then show ?case by simp
next
  case (Cons x xs)
  show ?case
  proof (cases "count + 1 > threshold")
    case True
    with Cons.prems show ?thesis by simp
  next
    case False
    then have "count + 1 \<le> threshold" by simp
    from Cons.IH [OF this] False show ?thesis by (simp add: add.assoc)
  qed
qed

text \<open>
  Claim C9, as amended. For a threshold that is not negative the counter returns at most
  \<open>threshold + 1\<close>, and for a generator that yields \<open>n\<close> members without failing it
  returns \<open>min n (threshold + 1)\<close>; the category is removed from the list exactly when
  the count is at most the threshold, so a count of \<open>threshold\<close> is eligible and a count
  of \<open>threshold + 1\<close> is not.
\<close>

theorem count_boundary:
  assumes "0 \<le> threshold"
  shows "count_files_in_category members threshold \<le> threshold + 1
     \<and> count_files_in_category (map Yield xs) threshold = min (int (length xs)) (threshold + 1)
     \<and> (process_subcategory members threshold = Removing
           \<longleftrightarrow> count_files_in_category members threshold \<le> threshold)
     \<and> decide threshold threshold = Removing
     \<and> decide (threshold + 1) threshold = Keeping"
proof -
  have "count_files_in_category members threshold \<le> threshold + 1"
    unfolding count_files_in_category_def using assms by (rule count_loop_le)
  moreover
  have "count_files_in_category (map Yield xs) threshold = min (int (length xs)) (threshold + 1)"
    unfolding count_files_in_category_def using count_loop_all_yield [OF assms, of xs] by simp
  moreover
  have "process_subcategory members threshold = Removing
           \<longleftrightarrow> count_files_in_category members threshold \<le> threshold"
    by (simp add: process_subcategory_def decide_def)
  moreover have "decide threshold threshold = Removing"
    by (simp add: decide_def)
  moreover have "decide (threshold + 1) threshold = Keeping"
    by (simp add: decide_def)
  ultimately show ?thesis by blast
qed

theorem count_boundary_witness:
  "(0::int) \<le> 2
   \<and> count_files_in_category [Yield (), Yield (), Yield (), Yield ()] 2 = 3
   \<and> process_subcategory [Yield (), Yield (), Yield (), Yield ()] 2 = Keeping
   \<and> decide 2 2 = Removing \<and> decide 3 2 = Keeping"
proof -
  have h: "(0::int) \<le> 2" by simp
  from count_boundary [OF h, of "[Yield (), Yield (), Yield (), Yield ()]" "[(), (), (), ()]"]
  have a: "count_files_in_category [Yield (), Yield (), Yield (), Yield ()] 2 = 3"
    and c: "(process_subcategory [Yield (), Yield (), Yield (), Yield ()] 2 = Removing)
            = (count_files_in_category [Yield (), Yield (), Yield (), Yield ()] 2 \<le> 2)"
    and d: "decide 2 2 = Removing" and e: "decide (2 + 1) 2 = Keeping"
    by simp_all
  from a c have "process_subcategory [Yield (), Yield (), Yield (), Yield ()] 2 = Keeping"
    by (cases "process_subcategory [Yield (), Yield (), Yield (), Yield ()] 2") simp_all
  with h a d e show ?thesis by simp
qed

text \<open>
  Claim C9 as stated fails for a negative threshold, which \<open>-min:-2\<close> sets: the counter
  starts at zero, above \<open>threshold + 1\<close>.
\<close>

theorem count_cap_counterexample:
  "\<not> count_files_in_category ([] :: unit step list) (- 2) \<le> (- 2) + 1"
  by (simp add: count_files_in_category_def)

section \<open>The documented scenario with a duplicate\<close>

text \<open>
  Claim C7. On the input of the module's documentation,
  \<open>{{CatDiffuse}} text {{Cat diffuse}}\<close>, the engine returns the text with the space that
  preceded the removed duplicate still in place, not \<open>{{Diffusion by condition|200}} text\<close>:
  the branch that replaces the first occurrence collapses blank lines only.
\<close>

theorem documented_duplicate_scenario:
  "replace_templates ''{{CatDiffuse}} text {{Cat diffuse}}'' [''CatDiffuse'', ''Cat diffuse'']
     ''Diffusion by condition'' 200
   = (''{{Diffusion by condition|200}} text '', True,
      ''Replaced CatDiffuse with Diffusion by condition|200 and removed 1 duplicate(s)'')"
  by code_simp

section \<open>The parse-tree rewriter of \<open>replace_catdiffuse.py\<close>\<close>









end
